theory Spec2Isabelle
  imports Main "HOL-Library.Word"
begin

section \<open>Field elements and byte strings\<close>

text \<open>
  The trie of \<^verbatim>\<open>pkg/trie\<close> works on \<^verbatim>\<open>types.Felt\<close> values, on bit paths and on a
  key-value store of byte strings. The packages \<^verbatim>\<open>pkg/types\<close>, \<^verbatim>\<open>pkg/crypto/pedersen\<close>,
  the path type of \<^verbatim>\<open>pkg/trie\<close> and \<^verbatim>\<open>pkg/store\<close> are not among the source files, so
  the operations of theirs that the trie calls are modelled from the specification
  (sections 3, 4.A, 4.C and 6); each such definition says so.
\<close>

type_synonym byte = "8 word"

text \<open>Modelled from the spec: \<^verbatim>\<open>types.Felt\<close> is missing. A felt has a fixed 32-byte
  big-endian encoding (\<^verbatim>\<open>FeltLength\<close> bytes), so it is a 256-bit word.\<close>

type_synonym felt = "256 word"

definition stark_p :: nat where
  "stark_p = 2 ^ 251 + 17 * 2 ^ 192 + 1"

definition FeltLength :: nat where
  "FeltLength = 32"

definition Felt0 :: felt where
  "Felt0 = 0"

text \<open>Big-endian byte strings of a fixed width, and the number a byte string holds.\<close>

fun be_bytes :: "nat \<Rightarrow> nat \<Rightarrow> byte list" where
  "be_bytes 0 x = []"
| "be_bytes (Suc n) x = be_bytes n (x div 256) @ [of_nat (x mod 256)]"

definition be_nat :: "byte list \<Rightarrow> nat" where
  "be_nat bs = foldl (\<lambda>a b. a * 256 + unat b) 0 bs"

text \<open>Modelled from the spec: \<^verbatim>\<open>Felt.Bytes\<close>, \<^verbatim>\<open>types.BytesToFelt\<close>, \<^verbatim>\<open>Felt.Big\<close>,
  \<^verbatim>\<open>types.BigToFelt\<close> and \<^verbatim>\<open>Felt.Add\<close> are missing. A felt is an unsigned integer modulo
  the StarkNet prime with a 32-byte big-endian encoding; addition is reduced modulo the
  prime.\<close>

definition Felt_Bytes :: "felt \<Rightarrow> byte list" where
  "Felt_Bytes f = be_bytes FeltLength (unat f)"

definition BytesToFelt :: "byte list \<Rightarrow> felt" where
  "BytesToFelt bs = of_nat (be_nat bs)"

definition Big :: "felt \<Rightarrow> nat" where
  "Big f = unat f"

definition BigToFelt :: "nat \<Rightarrow> felt" where
  "BigToFelt n = of_nat (n mod stark_p)"

definition Felt_Add :: "felt \<Rightarrow> felt \<Rightarrow> felt" where
  "Felt_Add a b = of_nat ((unat a + unat b) mod stark_p)"

text \<open>\<^verbatim>\<open>pedersen.Digest\<close> maps two big integers to a big integer. Its code is missing, so
  every definition that hashes takes the digest as its first argument.\<close>

type_synonym digest = "nat \<Rightarrow> nat \<Rightarrow> nat"

section \<open>Bit paths\<close>

text \<open>Modelled from the spec: the \<^verbatim>\<open>Path\<close> type of the trie package is missing. A path is
  a bit string, most significant bit first; \<^verbatim>\<open>NewPath(length, bytes)\<close> holds the low
  \<^verbatim>\<open>length\<close> bits of the big-endian number in \<^verbatim>\<open>bytes\<close>, \<^verbatim>\<open>Bytes\<close> gives that number
  back in \<open>\<lceil>length/8\<rceil>\<close> bytes, \<^verbatim>\<open>Get(i)\<close> reads bit \<open>i\<close> from the most significant end,
  \<^verbatim>\<open>Set(i)\<close> makes it one, \<^verbatim>\<open>Walked(k)\<close> skips \<open>k\<close> leading bits and
  \<^verbatim>\<open>longestCommonPrefix\<close> counts the leading bits two paths share.\<close>

type_synonym path = "bool list"

fun bits_of :: "nat \<Rightarrow> nat \<Rightarrow> path" where
  "bits_of 0 x = []"
| "bits_of (Suc n) x = bits_of n (x div 2) @ [odd x]"

definition path_nat :: "path \<Rightarrow> nat" where
  "path_nat p = foldl (\<lambda>a b. 2 * a + (if b then 1 else 0)) 0 p"

definition EmptyPath :: path where
  "EmptyPath = []"

definition NewPath :: "nat \<Rightarrow> byte list \<Rightarrow> path" where
  "NewPath n bs = bits_of n (be_nat bs)"

definition Len :: "path \<Rightarrow> nat" where
  "Len p = length p"

definition Path_Bytes :: "path \<Rightarrow> byte list" where
  "Path_Bytes p = be_bytes ((length p + 7) div 8) (path_nat p)"

definition Path_Get :: "path \<Rightarrow> nat \<Rightarrow> bool" where
  "Path_Get p i = p ! i"

definition Path_Set :: "path \<Rightarrow> nat \<Rightarrow> path" where
  "Path_Set p i = p[i := True]"

definition Walked :: "path \<Rightarrow> nat \<Rightarrow> path" where
  "Walked p k = drop k p"

fun longestCommonPrefix :: "path \<Rightarrow> path \<Rightarrow> nat" where
  "longestCommonPrefix (x # xs) (y # ys) =
     (if x = y then Suc (longestCommonPrefix xs ys) else 0)"
| "longestCommonPrefix xs ys = 0"

section \<open>Nodes and their hash\<close>

datatype Node = Node (Path: path) (Bottom: felt)

text \<open>\<^verbatim>\<open>Node.Hash\<close>: zero for the nil node, the bottom for a node with an empty path, and
  otherwise the digest of bottom and path plus the length of the path.\<close>

definition Hash :: "digest \<Rightarrow> Node option \<Rightarrow> felt" where
  "Hash D n =
     (case n of
        None \<Rightarrow> Felt0
      | Some nd \<Rightarrow>
          if Len (Path nd) = 0 then Bottom nd
          else
            let h = BigToFelt (D (Big (Bottom nd)) (be_nat (Path_Bytes (Path nd))));
                len = BigToFelt (Len (Path nd))
            in Felt_Add h len)"

section \<open>Numbers and strings in text\<close>

text \<open>A Go string is the list of its bytes. Decimal and hexadecimal numerals:
  \<open>dec_text\<close> and \<open>hex_text\<close> write a natural number without leading zeros, with the
  hexadecimal digits in lower case; \<open>hex_value\<close> reads hexadecimal digits of either case
  and \<open>dec_value\<close> reads decimal digits.\<close>

definition string_bytes :: "string \<Rightarrow> byte list" where
  "string_bytes s = map (\<lambda>c. of_char c) s"

definition bytes_string :: "byte list \<Rightarrow> string" where
  "bytes_string b = map (\<lambda>x. char_of (unat x)) b"

definition hex_digit :: "char \<Rightarrow> nat option" where
  "hex_digit c =
     (let n = (of_char c :: nat) in
      if 48 \<le> n \<and> n \<le> 57 then Some (n - 48)
      else if 97 \<le> n \<and> n \<le> 102 then Some (n - 87)
      else if 65 \<le> n \<and> n \<le> 70 then Some (n - 55)
      else None)"

fun hex_value :: "nat \<Rightarrow> string \<Rightarrow> nat option" where
  "hex_value acc [] = Some acc"
| "hex_value acc (c # cs) =
     (case hex_digit c of
        None \<Rightarrow> None
      | Some d \<Rightarrow> hex_value (16 * acc + d) cs)"

definition hex_char :: "nat \<Rightarrow> char" where
  "hex_char d = (if d < 10 then char_of (48 + d) else char_of (87 + d))"

function hex_text :: "nat \<Rightarrow> string" where
  "hex_text n = (if n < 16 then [hex_char n] else hex_text (n div 16) @ [hex_char (n mod 16)])"
  by pat_completeness auto
termination
  by (relation "measure id") auto

definition is_digit :: "char \<Rightarrow> bool" where
  "is_digit c = (48 \<le> (of_char c :: nat) \<and> (of_char c :: nat) \<le> 57)"

fun dec_value :: "nat \<Rightarrow> string \<Rightarrow> nat" where
  "dec_value acc [] = acc"
| "dec_value acc (c # cs) = dec_value (10 * acc + ((of_char c :: nat) - 48)) cs"

function dec_text :: "nat \<Rightarrow> string" where
  "dec_text n = (if n < 10 then [char_of (48 + n)] else dec_text (n div 10) @ [char_of (48 + n mod 10)])"
  by pat_completeness auto
termination
  by (relation "measure id") auto

text \<open>Modelled from the spec: \<^verbatim>\<open>Felt.Hex\<close> and \<^verbatim>\<open>types.HexToFelt\<close> are missing. The hex
  string of a felt has the prefix \<^verbatim>\<open>0x\<close> and no leading zeros, with \<^verbatim>\<open>0x0\<close> for zero
  (section 6); \<^verbatim>\<open>HexToFelt\<close> reads such a string back, with or without the prefix, and
  gives zero for a string that is no hexadecimal numeral.\<close>

definition Hex :: "felt \<Rightarrow> string" where
  "Hex f = ''0x'' @ hex_text (unat f)"

definition HexToFelt :: "string \<Rightarrow> felt" where
  "HexToFelt s =
     (let digits = (if take 2 s = ''0x'' then drop 2 s else s) in
      if digits = [] then Felt0
      else (case hex_value 0 digits of None \<Rightarrow> Felt0 | Some n \<Rightarrow> of_nat n))"

section \<open>The serialisation of a node\<close>

text \<open>The errors and panics of the trie package, and the error of the decoder.\<close>

datatype error =
    ErrNotFound
  | ErrInvalidValue
  | ErrUnmarshal
  | ErrUnexistentKey
  | PanicEmptyNode
  | PanicNilPointer

text \<open>\<^verbatim>\<open>Node.MarshalJSON\<close> hands \<^verbatim>\<open>json.Marshal\<close> a struct of the length of the path, the
  path as the hex string of a felt and the bottom as a hex string. \<^verbatim>\<open>json.Marshal\<close> of
  the Go library writes the object with its three members in the order of the struct,
  without white space, the length as a decimal numeral and the strings between double
  quotes; a hex string holds no character that JSON escapes.\<close>

definition quote :: char where
  "quote = CHR 0x22"

definition Marshal :: "Node \<Rightarrow> byte list" where
  "Marshal n =
     string_bytes
       (''{'' @ [quote] @ ''length'' @ [quote] @ '':'' @ dec_text (Len (Path n))
        @ '','' @ [quote] @ ''path'' @ [quote] @ '':'' @ [quote]
        @ Hex (BytesToFelt (Path_Bytes (Path n))) @ [quote]
        @ '','' @ [quote] @ ''bottom'' @ [quote] @ '':'' @ [quote]
        @ Hex (Bottom n) @ [quote] @ ''}'')"

text \<open>\<^verbatim>\<open>Node.UnmarshalJSON\<close> has \<^verbatim>\<open>json.Unmarshal\<close> read the struct back and builds the
  node with \<^verbatim>\<open>NewPath(length, HexToFelt(path).Bytes())\<close> and \<^verbatim>\<open>HexToFelt(bottom)\<close>. The
  decoder of the Go library is modelled on the texts that \<^verbatim>\<open>json.Marshal\<close> writes for
  this struct: an object with the members \<^verbatim>\<open>length\<close>, \<^verbatim>\<open>path\<close> and \<^verbatim>\<open>bottom\<close> in this
  order, without white space, a decimal numeral without leading zeros and two strings
  of printable characters without escapes. Every other text is an error in the model;
  the library reads more texts than these (white space, other orders of the members,
  escapes), and no statement below rests on a text being refused.\<close>

fun expect :: "string \<Rightarrow> string \<Rightarrow> string option" where
  "expect [] s = Some s"
| "expect (c # cs) [] = None"
| "expect (c # cs) (d # ds) = (if c = d then expect cs ds else None)"

definition plain :: "char \<Rightarrow> bool" where
  "plain c = (c \<noteq> quote \<and> c \<noteq> CHR 0x5C \<and> 32 \<le> (of_char c :: nat) \<and> (of_char c :: nat) < 127)"

definition json_Unmarshal :: "string \<Rightarrow> (nat \<times> string \<times> string) option" where
  "json_Unmarshal s =
     (case expect (''{'' @ [quote] @ ''length'' @ [quote] @ '':'') s of
        None \<Rightarrow> None
      | Some s1 \<Rightarrow>
          (let ds = takeWhile is_digit s1; s2 = dropWhile is_digit s1 in
           if ds = [] \<or> (hd ds = CHR ''0'' \<and> ds \<noteq> ''0'') then None
           else
             (case expect ('','' @ [quote] @ ''path'' @ [quote] @ '':'' @ [quote]) s2 of
                None \<Rightarrow> None
              | Some s3 \<Rightarrow>
                  (let p = takeWhile plain s3; s4 = dropWhile plain s3 in
                   case expect ([quote] @ '','' @ [quote] @ ''bottom'' @ [quote] @ '':'' @ [quote]) s4 of
                     None \<Rightarrow> None
                   | Some s5 \<Rightarrow>
                       (let b = takeWhile plain s5; s6 = dropWhile plain s5 in
                        if s6 = [quote] @ ''}'' then Some (dec_value 0 ds, p, b) else None)))))"

definition Unmarshal :: "byte list \<Rightarrow> error + Node" where
  "Unmarshal b =
     (case json_Unmarshal (bytes_string b) of
        None \<Rightarrow> Inl ErrUnmarshal
      | Some (len, p, bottom) \<Rightarrow>
          Inr (Node (NewPath len (Felt_Bytes (HexToFelt p))) (HexToFelt bottom)))"

section \<open>The content-addressed store\<close>

text \<open>Modelled from the spec: \<^verbatim>\<open>store.KVStorer\<close> is a key-value store of byte strings
  with \<^verbatim>\<open>Get\<close> and \<^verbatim>\<open>Put\<close>; a map from keys to values.\<close>

type_synonym kv = "byte list \<rightharpoonup> byte list"

definition retrieveByP :: "kv \<Rightarrow> felt \<Rightarrow> error + (felt \<times> felt)" where
  "retrieveByP kvs key =
     (case kvs (0 # Felt_Bytes key) of
        None \<Rightarrow> Inl ErrNotFound
      | Some v \<Rightarrow>
          if length v \<noteq> 2 * FeltLength then Inl ErrInvalidValue
          else Inr (BytesToFelt (take FeltLength v), BytesToFelt (drop FeltLength v)))"

definition retrieveByH :: "kv \<Rightarrow> felt \<Rightarrow> error + Node" where
  "retrieveByH kvs key =
     (case kvs (1 # Felt_Bytes key) of
        Some v \<Rightarrow> Unmarshal v
      | None \<Rightarrow> Inl ErrNotFound)"

definition storeByP :: "kv \<Rightarrow> felt \<Rightarrow> felt \<Rightarrow> felt \<Rightarrow> kv" where
  "storeByP kvs key arg1 arg2 = kvs(0 # Felt_Bytes key \<mapsto> Felt_Bytes arg1 @ Felt_Bytes arg2)"

definition storeByH :: "kv \<Rightarrow> felt \<Rightarrow> Node \<Rightarrow> kv" where
  "storeByH kvs key node = kvs(1 # Felt_Bytes key \<mapsto> Marshal node)"

section \<open>The trie\<close>

record Trie =
  root :: "Node option"
  storer :: kv
  height :: nat

text \<open>\<^verbatim>\<open>computeH\<close> and \<^verbatim>\<open>computeP\<close> hash and store; storing never fails in the model (the
  store's \<^verbatim>\<open>Put\<close> returns nothing), so they return the hash and the new store.\<close>

definition computeH :: "digest \<Rightarrow> kv \<Rightarrow> Node \<Rightarrow> felt \<times> kv" where
  "computeH D kvs node = (let h = Hash D (Some node) in (h, storeByH kvs h node))"

definition computeP :: "digest \<Rightarrow> kv \<Rightarrow> felt \<Rightarrow> felt \<Rightarrow> felt \<times> kv" where
  "computeP D kvs arg1 arg2 =
     (let p = BigToFelt (D (Big arg1) (Big arg2)) in (p, storeByP kvs p arg1 arg2))"

definition NewTrie :: "kv \<Rightarrow> felt option \<Rightarrow> nat \<Rightarrow> error + Trie" where
  "NewTrie kvStorer rootHash h =
     (case rootHash of
        None \<Rightarrow> Inr \<lparr>root = None, storer = kvStorer, height = h\<rparr>
      | Some rh \<Rightarrow>
          (case retrieveByH kvStorer rh of
             Inl e \<Rightarrow> Inl e
           | Inr r \<Rightarrow> Inr \<lparr>root = Some r, storer = kvStorer, height = h\<rparr>))"

definition RootHash :: "digest \<Rightarrow> Trie \<Rightarrow> felt" where
  "RootHash D t = (case root t of None \<Rightarrow> Felt0 | Some r \<Rightarrow> Hash D (Some r))"

subsection \<open>Get\<close>

text \<open>The traversal loop of \<^verbatim>\<open>Get\<close>; \<open>walked\<close> grows in every round, so it ends. An absent
  key is \<open>Inr None\<close>, the panic of the loop is \<open>Inl PanicEmptyNode\<close>.\<close>

function Get_loop :: "kv \<Rightarrow> nat \<Rightarrow> path \<Rightarrow> nat \<Rightarrow> Node \<Rightarrow> error + felt option" where
  "Get_loop kvs h path walked cur =
     (if walked < h then
        (if Len (Path cur) = 0 then
           (if Felt_Bytes (Bottom cur) = Felt_Bytes Felt0 then Inl PanicEmptyNode
            else
              (case retrieveByP kvs (Bottom cur) of
                 Inl e \<Rightarrow> Inl e
               | Inr (leftH, rightH) \<Rightarrow>
                   (case retrieveByH kvs (if Path_Get path walked then rightH else leftH) of
                      Inl e \<Rightarrow> Inl e
                    | Inr next \<Rightarrow> Get_loop kvs h path (walked + 1) next)))
         else if longestCommonPrefix (Path cur) (Walked path walked) = Len (Path cur) then
           Get_loop kvs h path (walked + Len (Path cur)) (Node EmptyPath (Bottom cur))
         else Inr None)
      else Inr (Some (Bottom cur)))"
  by pat_completeness auto
termination
  by (relation "measure (\<lambda>(kvs, h, path, walked, cur). h - walked)")
    (auto simp: Len_def neq_Nil_conv)

text \<open>\<^verbatim>\<open>Get\<close> has the trie as its receiver: the model returns the result together with the
  trie the call leaves behind.\<close>

definition Get :: "Trie \<Rightarrow> felt \<Rightarrow> (error + felt option) \<times> Trie" where
  "Get t key =
     (case root t of
        None \<Rightarrow> (Inr None, t)
      | Some r \<Rightarrow>
          (Get_loop (storer t) (height t) (NewPath (height t) (Felt_Bytes key)) 0 r, t))"

subsection \<open>Put\<close>

text \<open>The first loop of \<^verbatim>\<open>Put\<close> walks down and records the siblings, a map from bit
  positions to hashes.\<close>

function Put_walk ::
  "digest \<Rightarrow> kv \<Rightarrow> nat \<Rightarrow> path \<Rightarrow> nat \<Rightarrow> Node option \<Rightarrow> (nat \<rightharpoonup> felt) \<Rightarrow> error + (nat \<rightharpoonup> felt)"
where
  "Put_walk D kvs h path walked cur siblings =
     (case cur of
        None \<Rightarrow> Inr siblings
      | Some c \<Rightarrow>
          if walked < h then
            (if Len (Path c) = 0 then
               (if Felt_Bytes (Bottom c) = Felt_Bytes Felt0 then Inl PanicEmptyNode
                else
                  (case retrieveByP kvs (Bottom c) of
                     Inl e \<Rightarrow> Inl e
                   | Inr (leftH, rightH) \<Rightarrow>
                       (case retrieveByH kvs (if Path_Get path walked then rightH else leftH) of
                          Inl e \<Rightarrow> Inl e
                        | Inr next \<Rightarrow>
                            Put_walk D kvs h path (walked + 1) (Some next)
                              (siblings(walked \<mapsto> (if Path_Get path walked then leftH else rightH))))))
             else if longestCommonPrefix (Path c) (Walked path walked) = 0 then
               Inr (siblings(walked \<mapsto> Hash D (Some (Node (Walked (Path c) 1) (Bottom c)))))
             else
               Put_walk D kvs h path (walked + longestCommonPrefix (Path c) (Walked path walked))
                 (Some (Node (Walked (Path c) (longestCommonPrefix (Path c) (Walked path walked)))
                    (Bottom c)))
                 siblings)
          else Inr siblings)"
  by pat_completeness auto
termination
  by (relation "measure (\<lambda>(D, kvs, h, path, walked, cur, siblings). h - walked)") auto

text \<open>The second loop of \<^verbatim>\<open>Put\<close> walks the key in reverse, from \<open>i = n - 1\<close> down to
  \<open>0\<close>, and builds and stores a node at every position.\<close>

fun Put_up ::
  "digest \<Rightarrow> path \<Rightarrow> (nat \<rightharpoonup> felt) \<Rightarrow> nat \<Rightarrow> Node \<Rightarrow> felt \<Rightarrow> kv \<Rightarrow> Node \<times> kv"
where
  "Put_up D path siblings 0 cur hash kvs = (cur, kvs)"
| "Put_up D path siblings (Suc i) cur hash kvs =
     (case siblings i of
        Some sibling \<Rightarrow>
          (case computeP D kvs (if Path_Get path i then sibling else hash)
                  (if Path_Get path i then hash else sibling) of
             (bottom, kvs1) \<Rightarrow>
               (case computeH D kvs1 (Node EmptyPath bottom) of
                  (hash', kvs2) \<Rightarrow> Put_up D path siblings i (Node EmptyPath bottom) hash' kvs2))
      | None \<Rightarrow>
          (let edgePath = NewPath (Len (Path cur) + 1) (Path_Bytes (Path cur));
               edgePath' = (if Path_Get path i then Path_Set edgePath 0 else edgePath)
           in case computeH D kvs (Node edgePath' (Bottom cur)) of
                (hash', kvs1) \<Rightarrow> Put_up D path siblings i (Node edgePath' (Bottom cur)) hash' kvs1))"

definition Put :: "digest \<Rightarrow> Trie \<Rightarrow> felt \<Rightarrow> felt \<Rightarrow> error + Trie" where
  "Put D t key val =
     (let path = NewPath (height t) (Felt_Bytes key) in
      case Put_walk D (storer t) (height t) path 0 (root t) Map.empty of
        Inl e \<Rightarrow> Inl e
      | Inr siblings \<Rightarrow>
          (case computeH D (storer t) (Node EmptyPath val) of
             (hash, kvs) \<Rightarrow>
               (case Put_up D path siblings (Len path) (Node EmptyPath val) hash kvs of
                  (cur, kvs') \<Rightarrow> Inr (t\<lparr>root := Some cur, storer := kvs'\<rparr>))))"

subsection \<open>Delete\<close>

text \<open>The first loop of \<^verbatim>\<open>Delete\<close>: the siblings are a slice of \<open>height\<close> entries, nil at
  first. Where the key leaves an edge the loop sets the current node to nil and ends.\<close>

function Delete_walk ::
  "digest \<Rightarrow> kv \<Rightarrow> nat \<Rightarrow> path \<Rightarrow> nat \<Rightarrow> Node option \<Rightarrow> felt option list \<Rightarrow>
     error + (Node option \<times> felt option list)"
where
  "Delete_walk D kvs h path walked cur siblings =
     (case cur of
        None \<Rightarrow> Inr (None, siblings)
      | Some c \<Rightarrow>
          if walked < h then
            (if Len (Path c) = 0 then
               (if Felt_Bytes (Bottom c) = Felt_Bytes Felt0 then Inl PanicEmptyNode
                else
                  (case retrieveByP kvs (Bottom c) of
                     Inl e \<Rightarrow> Inl e
                   | Inr (leftH, rightH) \<Rightarrow>
                       (case retrieveByH kvs (if Path_Get path walked then rightH else leftH) of
                          Inl e \<Rightarrow> Inl e
                        | Inr next \<Rightarrow>
                            Delete_walk D kvs h path (walked + 1) (Some next)
                              (siblings[walked := Some (if Path_Get path walked then leftH else rightH)]))))
             else if longestCommonPrefix (Path c) (Walked path walked) = 0 then
               Inr (None, siblings[walked := Some (Hash D (Some (Node (Walked (Path c) 1) (Bottom c))))])
             else
               Delete_walk D kvs h path (walked + longestCommonPrefix (Path c) (Walked path walked))
                 (Some (Node (Walked (Path c) (longestCommonPrefix (Path c) (Walked path walked)))
                    (Bottom c)))
                 siblings)
          else Inr (Some c, siblings))"
  by pat_completeness auto
termination
  by (relation "measure (\<lambda>(D, kvs, h, path, walked, cur, siblings). h - walked)") auto

text \<open>The second loop of \<^verbatim>\<open>Delete\<close>. \<open>hash\<close> is a nil pointer until the first node is
  built.\<close>

fun Delete_up ::
  "digest \<Rightarrow> path \<Rightarrow> felt option list \<Rightarrow> nat \<Rightarrow> Node option \<Rightarrow> felt option \<Rightarrow> kv \<Rightarrow>
     error + (Node option \<times> kv)"
where
  "Delete_up D path siblings 0 cur hash kvs = Inr (cur, kvs)"
| "Delete_up D path siblings (Suc i) cur hash kvs =
     (case siblings ! i of
        Some sibling \<Rightarrow>
          (case cur of
             None \<Rightarrow>
               (case retrieveByH kvs sibling of
                  Inl e \<Rightarrow> Inl e
                | Inr sn \<Rightarrow>
                    (let edgePath = NewPath (Len (Path sn) + 1) (Path_Bytes (Path sn));
                         edgePath' = (if \<not> Path_Get path i then Path_Set edgePath 0 else edgePath)
                     in case computeH D kvs (Node edgePath' (Bottom sn)) of
                          (hash', kvs1) \<Rightarrow>
                            Delete_up D path siblings i (Some (Node edgePath' (Bottom sn)))
                              (Some hash') kvs1))
           | Some c \<Rightarrow>
               (case hash of
                  None \<Rightarrow> Inl PanicNilPointer
                | Some hs \<Rightarrow>
                    (case computeP D kvs (if Path_Get path i then sibling else hs)
                            (if Path_Get path i then hs else sibling) of
                       (bottom, kvs1) \<Rightarrow>
                         (case computeH D kvs1 (Node EmptyPath bottom) of
                            (hash', kvs2) \<Rightarrow>
                              Delete_up D path siblings i (Some (Node EmptyPath bottom))
                                (Some hash') kvs2))))
      | None \<Rightarrow>
          (case cur of
             Some c \<Rightarrow>
               (let edgePath = NewPath (Len (Path c) + 1) (Path_Bytes (Path c));
                    edgePath' = (if Path_Get path i then Path_Set edgePath 0 else edgePath)
                in case computeH D kvs (Node edgePath' (Bottom c)) of
                     (hash', kvs1) \<Rightarrow>
                       Delete_up D path siblings i (Some (Node edgePath' (Bottom c)))
                         (Some hash') kvs1)
           | None \<Rightarrow> Delete_up D path siblings i None hash kvs))"

definition Delete :: "digest \<Rightarrow> Trie \<Rightarrow> felt \<Rightarrow> error + Trie" where
  "Delete D t key =
     (let path = NewPath (height t) (Felt_Bytes key) in
      case Delete_walk D (storer t) (height t) path 0 (root t) (replicate (height t) None) of
        Inl e \<Rightarrow> Inl e
      | Inr (None, siblings) \<Rightarrow> Inl ErrUnexistentKey
      | Inr (Some c, siblings) \<Rightarrow>
          (case Delete_up D path siblings (Len path) None None (storer t) of
             Inl e \<Rightarrow> Inl e
           | Inr (cur, kvs') \<Rightarrow> Inr (t\<lparr>root := cur, storer := kvs'\<rparr>)))"

section \<open>Synchronisation bookkeeping\<close>

text \<open>\<^verbatim>\<open>updateNumericValueFromDB\<close> of \<^verbatim>\<open>pkg/starknet/utils.go\<close> writes a counter under a
  key of the database. Modelled from the spec: \<^verbatim>\<open>db.Databaser\<close> is missing; its \<^verbatim>\<open>Put\<close>
  stores a byte string under a key and reports an error or none.\<close>

definition latestBlockSynced :: string where
  "latestBlockSynced = ''latestBlockSynced''"

definition Databaser_Put :: "kv \<Rightarrow> byte list \<Rightarrow> byte list \<Rightarrow> error + kv" where
  "Databaser_Put database key val = Inr (database(key \<mapsto> val))"

definition updateNumericValueFromDB :: "kv \<Rightarrow> string \<Rightarrow> 64 word \<Rightarrow> error + kv" where
  "updateNumericValueFromDB database key val =
     (let b = be_bytes 8 (unat (val + 1)) in
      case Databaser_Put database (string_bytes key) b of
        Inl err \<Rightarrow> Inl err
      | Inr database' \<Rightarrow> Inr database')"

section \<open>The state update of the synchronizer\<close>

text \<open>\<^verbatim>\<open>Synchronizer.updateState\<close> of \<^verbatim>\<open>pkg/db/kvStorer.go\<close> applies a state diff
  inside a transaction of the transactioner: it begins the transaction, puts the diff
  into the tries, compares the commitment of the state trie with the state root it was
  given, and commits, or rolls back and panics. The later \<^verbatim>\<open>updateState\<close> of
  \<^verbatim>\<open>pkg/starknet/utils.go\<close> makes the same comparison and panics in the same way; it is
  handed a transaction by its caller and neither commits it nor rolls it back.\<close>

text \<open>\<^verbatim>\<open>remove0x\<close> of \<^verbatim>\<open>pkg/starknet/utils.go\<close> drops the characters \<^verbatim>\<open>0\<close> and \<^verbatim>\<open>x\<close> from
  the front of a string and gives \<^verbatim>\<open>"0"\<close> when nothing is left. The loop runs over the
  string with the accumulators \<^verbatim>\<open>answer\<close> and \<^verbatim>\<open>found\<close>. In Go it ranges over the runes
  of the string and appends each rune as a string, which gives back the bytes of a
  string of valid UTF-8; the model runs over the bytes, so it is \<^verbatim>\<open>remove0x\<close> on the
  strings of valid UTF-8, the hexadecimal strings of a state update among them.\<close>

fun remove0x_loop :: "string \<Rightarrow> bool \<Rightarrow> string \<Rightarrow> string" where
  "remove0x_loop answer found [] = answer"
| "remove0x_loop answer found (char # s) =
     (let found' = (found \<or> (char \<noteq> CHR ''0'' \<and> char \<noteq> CHR ''x'')) in
      if found' then remove0x_loop (answer @ [char]) found' s
      else remove0x_loop answer found' s)"

definition remove0x :: "string \<Rightarrow> string" where
  "remove0x s =
     (let answer = remove0x_loop [] False s in
      if length answer = 0 then ''0'' else answer)"

text \<open>The big integers of Go are the integers. \<^verbatim>\<open>new(big.Int).SetString(s, 16)\<close> reads an
  optional sign and then at least one hexadecimal digit, in either case, up to the end
  of the string; anything else is no number. \<^verbatim>\<open>Text(16)\<close> writes an integer in
  hexadecimal with the digits in lower case and a minus sign when it is negative.\<close>

definition SetString :: "string \<Rightarrow> int option" where
  "SetString s =
     (case s of
        [] \<Rightarrow> None
      | c # cs \<Rightarrow>
          if c = CHR ''-'' then
            (if cs = [] then None else map_option (\<lambda>n. - int n) (hex_value 0 cs))
          else if c = CHR ''+'' then
            (if cs = [] then None else map_option int (hex_value 0 cs))
          else map_option int (hex_value 0 s))"

definition Text :: "int \<Rightarrow> string" where
  "Text i = (if i < 0 then CHR ''-'' # hex_text (nat (- i)) else hex_text (nat i))"

text \<open>Modelled from the spec: \<^verbatim>\<open>db.Transactioner\<close> is missing. It is a key-value store
  with \<^verbatim>\<open>Begin\<close>, \<^verbatim>\<open>Commit\<close> and \<^verbatim>\<open>Rollback\<close>. The reads and writes after \<^verbatim>\<open>Begin\<close> go to
  the transaction, which starts as a snapshot of the store; \<^verbatim>\<open>Commit\<close> makes the writes
  of the transaction the store, all of them at once, and \<^verbatim>\<open>Rollback\<close> drops them. With
  no transaction open the reads and writes go to the store itself.\<close>

record Transactioner =
  persisted :: kv
  transaction :: "kv option"

definition Begin :: "Transactioner \<Rightarrow> Transactioner" where
  "Begin db = db\<lparr>transaction := Some (persisted db)\<rparr>"

definition Rollback :: "Transactioner \<Rightarrow> Transactioner" where
  "Rollback db = db\<lparr>transaction := None\<rparr>"

definition Commit :: "Transactioner \<Rightarrow> Transactioner option" where
  "Commit db =
     (case transaction db of
        None \<Rightarrow> None
      | Some w \<Rightarrow> Some (db\<lparr>persisted := w, transaction := None\<rparr>))"

definition Databaser_read :: "Transactioner \<Rightarrow> kv" where
  "Databaser_read db = (case transaction db of None \<Rightarrow> persisted db | Some w \<Rightarrow> w)"

definition Databaser_write :: "Transactioner \<Rightarrow> kv \<Rightarrow> Transactioner" where
  "Databaser_write db w =
     (case transaction db of
        None \<Rightarrow> db\<lparr>persisted := w\<rparr>
      | Some _ \<Rightarrow> db\<lparr>transaction := Some w\<rparr>)"

record DeployedContract =
  Address :: string
  ContractHash :: string

record KV =
  Key :: string
  Value :: string

text \<open>\<^verbatim>\<open>StorageDiffs\<close> is a Go map from the address to the slots; the list has its
  entries in the order in which the loop over the map visits them.\<close>

record StateDiff =
  DeployedContracts :: "DeployedContract list"
  StorageDiffs :: "(string \<times> KV list) list"

text \<open>The synchronizer of \<^verbatim>\<open>pkg/db/kvStorer.go\<close> calls code that is missing: the trie
  behind \<^verbatim>\<open>newTrie\<close>, \<^verbatim>\<open>Put\<close> and \<^verbatim>\<open>Commitment\<close>, \<^verbatim>\<open>pedersen.Digest\<close>, the contract
  hashes behind \<^verbatim>\<open>storeContractHash\<close> and \<^verbatim>\<open>loadContractHash\<close>, and the services and the
  feeder client that \<^verbatim>\<open>updateAbiAndCode\<close> calls. They are parameters. A trie is a
  reference \<^typ>\<open>'tr\<close>; what the references point to and what the services hold is the
  memory \<^typ>\<open>'m\<close>. The trie is handed the transactioner and reads and writes the key-value
  pairs it shows; the contract hashes and the services are not handed it.\<close>

record ('tr, 'm) collaborators =
  Digest :: "int \<Rightarrow> int \<Rightarrow> int"
  newTrie :: "string \<Rightarrow> 'm \<times> kv \<Rightarrow> 'tr \<times> 'm \<times> kv"
  trie_Put :: "'tr \<Rightarrow> int \<Rightarrow> int \<Rightarrow> 'm \<times> kv \<Rightarrow> 'm \<times> kv"
  Commitment :: "'tr \<Rightarrow> 'm \<times> kv \<Rightarrow> int"
  storeContractHash :: "string \<Rightarrow> int \<Rightarrow> 'm \<Rightarrow> 'm"
  loadContractHash :: "string \<Rightarrow> 'm \<Rightarrow> int"
  updateAbiAndCode :: "StateDiff \<Rightarrow> string \<Rightarrow> string \<Rightarrow> 'm \<Rightarrow> 'm"

record ('tr, 'm) Synchronizer =
  transactionerDB :: Transactioner
  stateTrie :: 'tr
  storageTries :: "string \<rightharpoonup> 'tr"
  memory :: 'm

text \<open>The calls of the logger that end in \<^verbatim>\<open>Panic\<close>, by their messages.\<close>

datatype panic =
    CouldntGetContractHash
  | CouldntConvertAddress
  | CouldntGetStorageSlotKey
  | CouldntGetStorageSlotValue
  | StateRootNotEqual
  | CouldntSaveValues

definition contractState :: "('tr, 'm) collaborators \<Rightarrow> int \<Rightarrow> int \<Rightarrow> int" where
  "contractState C contractHash storageRoot =
     (let val = Digest C contractHash storageRoot;
          val = Digest C val 0;
          val = Digest C val 0
      in val)"

definition Synchronizer_newTrie ::
  "('tr, 'm) collaborators \<Rightarrow> string \<Rightarrow> ('tr, 'm) Synchronizer \<Rightarrow> 'tr \<times> ('tr, 'm) Synchronizer" where
  "Synchronizer_newTrie C prefix s =
     (case newTrie C prefix (memory s, Databaser_read (transactionerDB s)) of
        (t, m, w) \<Rightarrow>
          (t, s\<lparr>memory := m, transactionerDB := Databaser_write (transactionerDB s) w\<rparr>))"

definition Synchronizer_Put ::
  "('tr, 'm) collaborators \<Rightarrow> 'tr \<Rightarrow> int \<Rightarrow> int \<Rightarrow> ('tr, 'm) Synchronizer \<Rightarrow> ('tr, 'm) Synchronizer" where
  "Synchronizer_Put C t key val s =
     (case trie_Put C t key val (memory s, Databaser_read (transactionerDB s)) of
        (m, w) \<Rightarrow> s\<lparr>memory := m, transactionerDB := Databaser_write (transactionerDB s) w\<rparr>)"

definition Synchronizer_Commitment ::
  "('tr, 'm) collaborators \<Rightarrow> 'tr \<Rightarrow> ('tr, 'm) Synchronizer \<Rightarrow> int" where
  "Synchronizer_Commitment C t s = Commitment C t (memory s, Databaser_read (transactionerDB s))"

definition Synchronizer_Rollback :: "('tr, 'm) Synchronizer \<Rightarrow> ('tr, 'm) Synchronizer" where
  "Synchronizer_Rollback s = s\<lparr>transactionerDB := Rollback (transactionerDB s)\<rparr>"

text \<open>The three loops of \<^verbatim>\<open>Synchronizer.updateState\<close>. A loop returns the panic that ended
  it, if one did, and the state of the synchronizer at that moment.\<close>

fun deployedContracts_loop ::
  "('tr, 'm) collaborators \<Rightarrow> DeployedContract list \<Rightarrow> ('tr, 'm) Synchronizer
     \<Rightarrow> panic option \<times> ('tr, 'm) Synchronizer" where
  "deployedContracts_loop C [] s = (None, s)"
| "deployedContracts_loop C (deployedContract # rest) s =
     (case SetString (remove0x (ContractHash deployedContract)) of
        None \<Rightarrow> (Some CouldntGetContractHash, Synchronizer_Rollback s)
      | Some contractHash \<Rightarrow>
          (let s1 = s\<lparr>memory := storeContractHash C (Address deployedContract) contractHash (memory s)\<rparr>;
               (storageTrie, s2) =
                 (case storageTries s1 (remove0x (Address deployedContract)) of
                    Some t \<Rightarrow> (t, s1)
                  | None \<Rightarrow> Synchronizer_newTrie C (remove0x (Address deployedContract)) s1);
               storageRoot = Synchronizer_Commitment C storageTrie s2
           in case SetString (remove0x (Address deployedContract)) of
                None \<Rightarrow> (Some CouldntConvertAddress, Synchronizer_Rollback s2)
              | Some address \<Rightarrow>
                  (let contractStateValue = contractState C contractHash storageRoot;
                       s3 = Synchronizer_Put C (stateTrie s2) address contractStateValue s2;
                       s4 = s3\<lparr>storageTries :=
                               (storageTries s3)(remove0x (Address deployedContract) \<mapsto> storageTrie)\<rparr>
                   in deployedContracts_loop C rest s4)))"

fun storageSlots_loop ::
  "('tr, 'm) collaborators \<Rightarrow> 'tr \<Rightarrow> KV list \<Rightarrow> ('tr, 'm) Synchronizer
     \<Rightarrow> panic option \<times> ('tr, 'm) Synchronizer" where
  "storageSlots_loop C storageTrie [] s = (None, s)"
| "storageSlots_loop C storageTrie (storageSlots # rest) s =
     (case SetString (remove0x (Key storageSlots)) of
        None \<Rightarrow> (Some CouldntGetStorageSlotKey, Synchronizer_Rollback s)
      | Some key \<Rightarrow>
          (case SetString (remove0x (Value storageSlots)) of
             None \<Rightarrow> (Some CouldntGetStorageSlotValue, Synchronizer_Rollback s)
           | Some val \<Rightarrow>
               storageSlots_loop C storageTrie rest (Synchronizer_Put C storageTrie key val s)))"

fun storageDiffs_loop ::
  "('tr, 'm) collaborators \<Rightarrow> (string \<times> KV list) list \<Rightarrow> ('tr, 'm) Synchronizer
     \<Rightarrow> panic option \<times> ('tr, 'm) Synchronizer" where
  "storageDiffs_loop C [] s = (None, s)"
| "storageDiffs_loop C ((k, v) # rest) s =
     (let (storageTrie, s1) =
            (case storageTries s (remove0x k) of
               Some t \<Rightarrow> (t, s)
             | None \<Rightarrow> Synchronizer_newTrie C (remove0x k) s)
      in case storageSlots_loop C storageTrie v s1 of
           (Some p, s2) \<Rightarrow> (Some p, s2)
         | (None, s2) \<Rightarrow>
             (let storageRoot = Synchronizer_Commitment C storageTrie s2;
                  s3 = s2\<lparr>storageTries := (storageTries s2)(k \<mapsto> storageTrie)\<rparr>
              in case SetString (remove0x k) of
                   None \<Rightarrow> (Some CouldntConvertAddress, Synchronizer_Rollback s3)
                 | Some address \<Rightarrow>
                     (let contractStateValue =
                            contractState C (loadContractHash C k (memory s3)) storageRoot;
                          s4 = Synchronizer_Put C (stateTrie s3) address contractStateValue s3
                      in storageDiffs_loop C rest s4)))"

text \<open>\<^verbatim>\<open>Synchronizer.updateState\<close> up to the state commitment: it begins the transaction,
  runs the loops over the deployed contracts and over the storage diffs, and reads the
  commitment of the state trie.\<close>

definition updateState_commitment ::
  "('tr, 'm) collaborators \<Rightarrow> ('tr, 'm) Synchronizer \<Rightarrow> StateDiff
     \<Rightarrow> (panic + int) \<times> ('tr, 'm) Synchronizer" where
  "updateState_commitment C s update =
     (let s0 = s\<lparr>transactionerDB := Begin (transactionerDB s)\<rparr> in
      case deployedContracts_loop C (DeployedContracts update) s0 of
        (Some p, s1) \<Rightarrow> (Inl p, s1)
      | (None, s1) \<Rightarrow>
          (case storageDiffs_loop C (StorageDiffs update) s1 of
             (Some p, s2) \<Rightarrow> (Inl p, s2)
           | (None, s2) \<Rightarrow>
               (Inr (Synchronizer_Commitment C (stateTrie s2) s2), s2)))"

text \<open>\<^verbatim>\<open>Synchronizer.updateState\<close>: the result is the panic that ended the call, or none
  when the call returned \<^verbatim>\<open>nil\<close>, and the state of the synchronizer. The block hash
  and the block number only go to the logger and to \<^verbatim>\<open>updateAbiAndCode\<close>.\<close>

definition updateState ::
  "('tr, 'm) collaborators \<Rightarrow> ('tr, 'm) Synchronizer \<Rightarrow> StateDiff \<Rightarrow> string \<Rightarrow> string \<Rightarrow> string
     \<Rightarrow> panic option \<times> ('tr, 'm) Synchronizer" where
  "updateState C s update stateRoot blockHash blockNumber =
     (case updateState_commitment C s update of
        (Inl p, s') \<Rightarrow> (Some p, s')
      | (Inr commitment, s2) \<Rightarrow>
          let stateCommitment = remove0x (Text commitment) in
          if stateRoot \<noteq> [] \<and> stateCommitment \<noteq> remove0x stateRoot
          then (Some StateRootNotEqual, Synchronizer_Rollback s2)
          else (case Commit (transactionerDB s2) of
                  None \<Rightarrow> (Some CouldntSaveValues, s2)
                | Some db \<Rightarrow>
                    (None, s2\<lparr>transactionerDB := db,
                              memory := updateAbiAndCode C update blockHash blockNumber (memory s2)\<rparr>)))"

text \<open>A stand-in for the collaborators, for the examples: a trie keeps under its prefix
  the value put last and has it as its commitment, the digest is the sum, and the
  contract hashes and the services hold nothing.\<close>

definition example_collaborators :: "(string, unit) collaborators" where
  "example_collaborators =
     \<lparr>Digest = (\<lambda>a b. a + b),
      newTrie = (\<lambda>prefix (m, w). (prefix, m, w)),
      trie_Put = (\<lambda>t key val (m, w). (m, w(string_bytes t \<mapsto> be_bytes 32 (nat val)))),
      Commitment = (\<lambda>t (m, w). (case w (string_bytes t) of None \<Rightarrow> 0 | Some b \<Rightarrow> int (be_nat b))),
      storeContractHash = (\<lambda>address contractHash m. m),
      loadContractHash = (\<lambda>address m. 0),
      updateAbiAndCode = (\<lambda>update blockHash blockNumber m. m)\<rparr>"

definition example_synchronizer :: "(string, unit) Synchronizer" where
  "example_synchronizer =
     \<lparr>transactionerDB = \<lparr>persisted = Map.empty, transaction = None\<rparr>,
      stateTrie = ''state_trie_'',
      storageTries = Map.empty,
      memory = ()\<rparr>"

definition example_update :: StateDiff where
  "example_update =
     \<lparr>DeployedContracts = [\<lparr>Address = ''0x1'', ContractHash = ''0x2''\<rparr>],
      StorageDiffs = []\<rparr>"
section \<open>Tries built by a sequence of puts\<close>

text \<open>\<open>puts\<close> applies \<^verbatim>\<open>Put\<close> to a list of key-value pairs in order and stops at the first
  error. \<open>key_path\<close> is the path \<^verbatim>\<open>Put\<close>, \<^verbatim>\<open>Get\<close> and \<^verbatim>\<open>Delete\<close> compute from a key.\<close>

fun puts :: "digest \<Rightarrow> Trie \<Rightarrow> (felt \<times> felt) list \<Rightarrow> error + Trie" where
  "puts D t [] = Inr t"
| "puts D t ((k, v) # kvs) = (case Put D t k v of Inl e \<Rightarrow> Inl e | Inr t' \<Rightarrow> puts D t' kvs)"

definition key_path :: "nat \<Rightarrow> felt \<Rightarrow> path" where
  "key_path h key = NewPath h (Felt_Bytes key)"

text \<open>The nodes a traversal can reach from the root \<open>rt\<close> through the store, with the
  number of bits walked: the end of an edge, and the two children of a node with an empty
  path above the leaves, read through the pair stored under its bottom.\<close>

inductive reach :: "kv \<Rightarrow> nat \<Rightarrow> Node \<Rightarrow> nat \<Rightarrow> Node \<Rightarrow> bool" for kvs h rt where
  reach_root: "reach kvs h rt 0 rt"
| reach_edge: "reach kvs h rt d n \<Longrightarrow> Path n \<noteq> [] \<Longrightarrow>
     reach kvs h rt (d + length (Path n)) (Node [] (Bottom n))"
| reach_left: "reach kvs h rt d n \<Longrightarrow> Path n = [] \<Longrightarrow> d < h \<Longrightarrow>
     retrieveByP kvs (Bottom n) = Inr (l, r) \<Longrightarrow> retrieveByH kvs l = Inr c \<Longrightarrow>
     reach kvs h rt (Suc d) c"
| reach_right: "reach kvs h rt d n \<Longrightarrow> Path n = [] \<Longrightarrow> d < h \<Longrightarrow>
     retrieveByP kvs (Bottom n) = Inr (l, r) \<Longrightarrow> retrieveByH kvs r = Inr c \<Longrightarrow>
     reach kvs h rt (Suc d) c"

text \<open>A digest for the examples: a thousand times the pairing function of Cantor. It is
  injective, so what the examples show needs no collision of the digest.\<close>

definition example_digest :: digest where
  "example_digest a b = 1000 * ((a + b) * (a + b + 1) div 2 + b)"

section \<open>Encodings read back what they wrote\<close>

lemma length_be_bytes [simp]: "length (be_bytes n x) = n"
  by (induction n arbitrary: x) auto

lemma be_nat_append: "be_nat (xs @ [b]) = be_nat xs * 256 + unat b"
  by (simp add: be_nat_def)

lemma be_nat_be_bytes: "be_nat (be_bytes n x) = x mod 256 ^ n"
proof (induction n arbitrary: x)
  case 0
  show ?case by (simp add: be_nat_def)
next
  case (Suc n)
  have u: "unat (of_nat (x mod 256) :: byte) = x mod 256"
    by (simp add: unat_of_nat)
  have "be_nat (be_bytes (Suc n) x) = (x div 256 mod 256 ^ n) * 256 + x mod 256"
    by (simp add: be_nat_append Suc u)
  also have "\<dots> = x mod 256 ^ Suc n"
    by (simp add: mod_mult2_eq mult.commute)
  finally show ?case .
qed

lemma BytesToFelt_Felt_Bytes [simp]: "BytesToFelt (Felt_Bytes f) = f"
proof -
  have "unat f < 256 ^ 32"
    using unsigned_less [of f, where 'a = nat] by simp
  then show ?thesis
    by (simp add: BytesToFelt_def Felt_Bytes_def FeltLength_def be_nat_be_bytes)
qed

lemma Felt_Bytes_inject [simp]: "Felt_Bytes a = Felt_Bytes b \<longleftrightarrow> a = b"
  by (metis BytesToFelt_Felt_Bytes)

lemma length_Felt_Bytes [simp]: "length (Felt_Bytes f) = 32"
  by (simp add: Felt_Bytes_def FeltLength_def)

lemma length_bits_of [simp]: "length (bits_of n x) = n"
  by (induction n arbitrary: x) auto

lemma path_nat_snoc: "path_nat (p @ [b]) = 2 * path_nat p + (if b then 1 else 0)"
  by (simp add: path_nat_def)

lemma path_nat_Nil [simp]: "path_nat [] = 0"
  by (simp add: path_nat_def)

lemma bits_of_path_nat: "bits_of (length p) (path_nat p) = p"
proof (induction p rule: rev_induct)
  case Nil
  show ?case by simp
next
  case (snoc b p)
  then show ?case by (simp add: path_nat_snoc)
qed

lemma path_nat_less: "path_nat p < 2 ^ length p"
proof (induction p rule: rev_induct)
  case Nil
  show ?case by simp
next
  case (snoc b p)
  then show ?case by (simp add: path_nat_snoc)
qed

lemma bits_of_zero: "bits_of n 0 = replicate n False"
  by (induction n) (auto simp: replicate_append_same)

lemma bits_of_small: "x < 2 ^ n \<Longrightarrow> bits_of (n + k) x = replicate k False @ bits_of n x"
proof (induction n arbitrary: x)
  case 0
  then show ?case by (simp add: bits_of_zero)
next
  case (Suc n)
  then have "x div 2 < 2 ^ n" by auto
  from Suc.IH [OF this] show ?case by simp
qed

lemma bits_of_Suc_path_nat: "bits_of (Suc (length p)) (path_nat p) = False # p"
proof -
  have "bits_of (length p + 1) (path_nat p) = replicate 1 False @ bits_of (length p) (path_nat p)"
    by (rule bits_of_small [OF path_nat_less])
  then show ?thesis
    by (simp add: bits_of_path_nat del: bits_of.simps)
qed

lemma be_nat_Path_Bytes [simp]: "be_nat (Path_Bytes p) = path_nat p"
proof -
  have "(2::nat) ^ length p \<le> 2 ^ (8 * ((length p + 7) div 8))"
    by (rule power_increasing) auto
  also have "\<dots> = 256 ^ ((length p + 7) div 8)"
    by (simp add: power_mult)
  finally have "path_nat p < 256 ^ ((length p + 7) div 8)"
    using path_nat_less [of p] by simp
  then show ?thesis by (simp add: Path_Bytes_def be_nat_be_bytes)
qed

lemma NewPath_extend [simp]: "NewPath (Suc (Len p)) (Path_Bytes p) = False # p"
  by (simp add: NewPath_def Len_def bits_of_Suc_path_nat del: bits_of.simps)

lemma NewPath_length [simp]: "length (NewPath n bs) = n"
  by (simp add: NewPath_def)

lemma path_nat_bits_of: "path_nat (bits_of n x) = x mod 2 ^ n"
proof (induction n arbitrary: x)
  case 0
  show ?case by simp
next
  case (Suc n)
  have "path_nat (bits_of (Suc n) x) = 2 * (x div 2 mod 2 ^ n) + x mod 2"
    by (simp add: path_nat_snoc Suc odd_iff_mod_2_eq_one)
  also have "\<dots> = x mod 2 ^ Suc n"
    by (simp add: mod_mult2_eq)
  finally show ?case .
qed

lemma Put_up_no_siblings:
  "i \<le> length path \<Longrightarrow>
   fst (Put_up D path Map.empty i (Node q b) hash kvs) = Node (take i path @ q) b"
proof (induction i arbitrary: q hash kvs)
  case 0
  show ?case by simp
next
  case (Suc i)
  then have i: "i < length path" by simp
  have t: "take (Suc i) path = take i path @ [path ! i]"
    using i by (simp add: take_Suc_conv_app_nth)
  show ?case
    using Suc.IH i
    by (auto simp: t computeH_def Path_Get_def Path_Set_def Let_def)
qed

section \<open>The serialisation reads back what it wrote\<close>

lemma bytes_string_string_bytes [simp]: "bytes_string (string_bytes s) = s"
proof -
  have "char_of (unat (of_char c :: byte)) = c" for c
  proof -
    have "(of_char c :: byte) = of_nat (of_char c)"
      by (simp only: of_nat_of_char)
    then have "unat (of_char c :: byte) = (of_char c :: nat) mod 2 ^ 8"
      by (simp add: unat_of_nat)
    also have "\<dots> = of_char c"
      using nat_of_char_less_256 [of c] by simp
    finally show ?thesis by simp
  qed
  then show ?thesis
    by (simp add: bytes_string_def string_bytes_def map_idI)
qed

lemma expect_append [simp]: "expect a (a @ s) = Some s"
  by (induction a) simp_all

lemma takeWhile_stop:
  "(\<And>x. x \<in> set xs \<Longrightarrow> P x) \<Longrightarrow> \<not> P c \<Longrightarrow> takeWhile P (xs @ c # r) = xs"
  by (simp add: takeWhile_append2)

lemma dropWhile_stop:
  "(\<And>x. x \<in> set xs \<Longrightarrow> P x) \<Longrightarrow> \<not> P c \<Longrightarrow> dropWhile P (xs @ c # r) = c # r"
  by (simp add: dropWhile_append2)

declare hex_text.simps [simp del] dec_text.simps [simp del]

lemma dec_value_snoc:
  "dec_value acc (cs @ [c]) = 10 * dec_value acc cs + ((of_char c :: nat) - 48)"
  by (induction cs arbitrary: acc) simp_all

lemma dec_value_dec_text: "dec_value 0 (dec_text n) = n"
proof (induction n rule: dec_text.induct)
  case (1 n)
  show ?case
  proof (cases "n < 10")
    case True
    then show ?thesis
      by (subst dec_text.simps) simp
  next
    case False
    with 1 have "dec_value 0 (dec_text (n div 10)) = n div 10" by simp
    with False show ?thesis
      by (subst dec_text.simps) (simp add: dec_value_snoc)
  qed
qed

lemma dec_text_digits: "c \<in> set (dec_text n) \<Longrightarrow> is_digit c"
proof (induction n rule: dec_text.induct)
  case (1 n)
  show ?case
  proof (cases "n < 10")
    case True
    with 1(2) show ?thesis
      by (subst (asm) dec_text.simps) (simp add: is_digit_def)
  next
    case False
    from 1(2) have "c \<in> set (dec_text (n div 10)) \<or> c = char_of (48 + n mod 10)"
      using False by (subst (asm) dec_text.simps) auto
    then show ?thesis
    proof
      assume "c \<in> set (dec_text (n div 10))"
      with 1(1) False show ?thesis by simp
    next
      assume "c = char_of (48 + n mod 10)"
      moreover have "n mod 10 < 10" by simp
      ultimately show ?thesis by (simp add: is_digit_def)
    qed
  qed
qed

lemma dec_text_head:
  "\<exists>c cs. dec_text n = c # cs \<and> (c = CHR ''0'' \<longrightarrow> n = 0 \<and> cs = [])"
proof (induction n rule: dec_text.induct)
  case (1 n)
  show ?case
  proof (cases "n < 10")
    case True
    have "char_of (48 + n) = CHR ''0'' \<longrightarrow> n = 0"
    proof
      assume "char_of (48 + n) = CHR ''0''"
      then have "(of_char (char_of (48 + n)) :: nat) = of_char CHR ''0''" by simp
      with True show "n = 0" by simp
    qed
    with True show ?thesis
      by (subst dec_text.simps) simp
  next
    case False
    then have pos: "0 < n div 10" by simp
    from 1 False obtain c cs where eq: "dec_text (n div 10) = c # cs"
      and z: "c = CHR ''0'' \<longrightarrow> n div 10 = 0 \<and> cs = []"
      by blast
    from z pos have "c \<noteq> CHR ''0''" by auto
    with eq False show ?thesis
      by (subst dec_text.simps) simp
  qed
qed

lemma hex_digit_hex_char: "d < 16 \<Longrightarrow> hex_digit (hex_char d) = Some d"
  by (auto simp: hex_digit_def hex_char_def Let_def)

lemma hex_value_snoc:
  "hex_value acc (cs @ [c]) =
     (case hex_value acc cs of
        None \<Rightarrow> None
      | Some v \<Rightarrow> (case hex_digit c of None \<Rightarrow> None | Some d \<Rightarrow> Some (16 * v + d)))"
  by (induction cs arbitrary: acc) (auto split: option.splits)

lemma hex_value_hex_text: "hex_value 0 (hex_text n) = Some n"
proof (induction n rule: hex_text.induct)
  case (1 n)
  show ?case
  proof (cases "n < 16")
    case True
    then show ?thesis
      by (subst hex_text.simps) (simp add: hex_digit_hex_char)
  next
    case False
    with 1 have "hex_value 0 (hex_text (n div 16)) = Some (n div 16)" by simp
    with False show ?thesis
      by (subst hex_text.simps) (simp add: hex_value_snoc hex_digit_hex_char)
  qed
qed

lemma hex_text_not_Nil [simp]: "hex_text n \<noteq> []"
  by (subst hex_text.simps) simp

lemma plain_iff:
  "plain c \<longleftrightarrow> (of_char c :: nat) \<noteq> 34 \<and> (of_char c :: nat) \<noteq> 92
      \<and> 32 \<le> (of_char c :: nat) \<and> (of_char c :: nat) < 127"
proof -
  have "c = quote \<longleftrightarrow> (of_char c :: nat) = of_char quote"
    by (simp only: of_char_eq_iff)
  moreover have "c = CHR 0x5C \<longleftrightarrow> (of_char c :: nat) = of_char (CHR 0x5C)"
    by (simp only: of_char_eq_iff)
  ultimately show ?thesis
    by (simp add: plain_def quote_def)
qed

lemma hex_char_plain: "d < 16 \<Longrightarrow> plain (hex_char d)"
  by (simp add: plain_iff hex_char_def)

lemma hex_text_plain: "c \<in> set (hex_text n) \<Longrightarrow> plain c"
proof (induction n rule: hex_text.induct)
  case (1 n)
  show ?case
  proof (cases "n < 16")
    case True
    with 1(2) show ?thesis
      by (subst (asm) hex_text.simps) (simp add: hex_char_plain)
  next
    case False
    from 1(2) have "c \<in> set (hex_text (n div 16)) \<or> c = hex_char (n mod 16)"
      using False by (subst (asm) hex_text.simps) auto
    then show ?thesis
    proof
      assume "c \<in> set (hex_text (n div 16))"
      with 1(1) False show ?thesis by simp
    next
      assume "c = hex_char (n mod 16)"
      then show ?thesis by (simp add: hex_char_plain)
    qed
  qed
qed

lemma Hex_plain: "c \<in> set (Hex f) \<Longrightarrow> plain c"
proof -
  assume "c \<in> set (Hex f)"
  then have "c = CHR ''0'' \<or> c = CHR ''x'' \<or> c \<in> set (hex_text (unat f))"
    by (auto simp: Hex_def)
  moreover have "plain CHR ''0''" "plain CHR ''x''"
    by (simp_all add: plain_iff)
  ultimately show ?thesis
    using hex_text_plain by blast
qed

lemma HexToFelt_Hex [simp]: "HexToFelt (Hex f) = f"
  by (simp add: HexToFelt_def Hex_def hex_value_hex_text)

lemma not_plain_quote [simp]: "\<not> plain quote"
  by (simp add: plain_def)

lemma not_digit_comma [simp]: "\<not> is_digit CHR '',''"
  by (simp add: is_digit_def)

lemma json_Unmarshal_Marshal:
  "json_Unmarshal
       (''{'' @ [quote] @ ''length'' @ [quote] @ '':'' @ dec_text n
        @ '','' @ [quote] @ ''path'' @ [quote] @ '':'' @ [quote]
        @ Hex p @ [quote]
        @ '','' @ [quote] @ ''bottom'' @ [quote] @ '':'' @ [quote]
        @ Hex b @ [quote] @ ''}'')
     = Some (n, Hex p, Hex b)"
proof -
  let ?A = "''{'' @ [quote] @ ''length'' @ [quote] @ '':''"
  let ?B = "[quote] @ ''path'' @ [quote] @ '':'' @ [quote]"
  let ?C = "'','' @ [quote] @ ''bottom'' @ [quote] @ '':'' @ [quote]"
  let ?s6 = "quote # ''}''"
  let ?s5 = "Hex b @ ?s6"
  let ?s4 = "quote # ?C @ ?s5"
  let ?s3 = "Hex p @ ?s4"
  let ?s2 = "CHR '','' # ?B @ ?s3"
  let ?s1 = "dec_text n @ ?s2"
  have whole: "''{'' @ [quote] @ ''length'' @ [quote] @ '':'' @ dec_text n
        @ '','' @ [quote] @ ''path'' @ [quote] @ '':'' @ [quote]
        @ Hex p @ [quote]
        @ '','' @ [quote] @ ''bottom'' @ [quote] @ '':'' @ [quote]
        @ Hex b @ [quote] @ ''}'' = ?A @ ?s1"
    by simp
  have e1: "expect ?A (?A @ ?s1) = Some ?s1" by (rule expect_append)
  have t1: "takeWhile is_digit ?s1 = dec_text n"
    by (rule takeWhile_stop) (simp_all add: dec_text_digits)
  have d1: "dropWhile is_digit ?s1 = ?s2"
    by (rule dropWhile_stop) (simp_all add: dec_text_digits)
  obtain c cs where dt: "dec_text n = c # cs" and z: "c = CHR ''0'' \<longrightarrow> n = 0 \<and> cs = []"
    using dec_text_head [of n] by blast
  have ok: "\<not> (dec_text n = [] \<or> (hd (dec_text n) = CHR ''0'' \<and> dec_text n \<noteq> ''0''))"
    using dt z by auto
  have e2: "expect ('','' @ [quote] @ ''path'' @ [quote] @ '':'' @ [quote]) ?s2 = Some ?s3"
    using expect_append [of "'','' @ [quote] @ ''path'' @ [quote] @ '':'' @ [quote]" ?s3] by simp
  have t3: "takeWhile plain ?s3 = Hex p"
    by (rule takeWhile_stop) (simp_all add: Hex_plain)
  have d3: "dropWhile plain ?s3 = ?s4"
    by (rule dropWhile_stop) (simp_all add: Hex_plain)
  have e4: "expect ([quote] @ '','' @ [quote] @ ''bottom'' @ [quote] @ '':'' @ [quote]) ?s4 = Some ?s5"
    using expect_append [of "[quote] @ '','' @ [quote] @ ''bottom'' @ [quote] @ '':'' @ [quote]" ?s5]
    by simp
  have t5: "takeWhile plain ?s5 = Hex b"
    by (rule takeWhile_stop) (simp_all add: Hex_plain)
  have d5: "dropWhile plain ?s5 = ?s6"
    by (rule dropWhile_stop) (simp_all add: Hex_plain)
  show ?thesis
    unfolding whole json_Unmarshal_def e1
    using ok
    by (simp only: option.case Let_def t1 d1 e2 t3 d3 e4 t5 d5 if_False dec_value_dec_text)
      simp
qed

lemma Unmarshal_Marshal:
  assumes "length (Path n) \<le> 251"
  shows "Unmarshal (Marshal n) = Inr n"
proof -
  let ?p = "Path n"
  have "path_nat ?p < 2 ^ length ?p" by (rule path_nat_less)
  also have "\<dots> \<le> (2::nat) ^ 256"
    by (rule power_increasing) (use assms in auto)
  finally have pn: "path_nat ?p < 2 ^ 256" .
  have u: "unat (of_nat (path_nat ?p) :: felt) = path_nat ?p"
    using pn by (simp add: unat_of_nat)
  have "path_nat ?p < 256 ^ 32" using pn by simp
  then have p: "be_nat (Felt_Bytes (BytesToFelt (Path_Bytes ?p))) = path_nat ?p"
    by (simp add: Felt_Bytes_def BytesToFelt_def FeltLength_def be_nat_be_bytes u)
  have "Unmarshal (Marshal n)
          = Inr (Node (NewPath (Len ?p) (Felt_Bytes (BytesToFelt (Path_Bytes ?p)))) (Bottom n))"
    by (simp only: Unmarshal_def Marshal_def bytes_string_string_bytes json_Unmarshal_Marshal
        option.case prod.case HexToFelt_Hex)
  also have "\<dots> = Inr n"
    by (cases n) (use p in \<open>simp add: Len_def NewPath_def bits_of_path_nat\<close>)
  finally show ?thesis .
qed

section \<open>Paths and tries of one edge\<close>

declare Get_loop.simps [simp del] Put_walk.simps [simp del] Delete_walk.simps [simp del]

lemma longestCommonPrefix_full: "longestCommonPrefix p s = length p \<longleftrightarrow> take (length p) s = p"
  by (induction p s rule: longestCommonPrefix.induct) auto

lemma longestCommonPrefix_same [simp]: "longestCommonPrefix p p = length p"
  by (simp add: longestCommonPrefix_full)

lemma key_path_length [simp]: "length (key_path h key) = h"
  by (simp add: key_path_def)

text \<open>A trie that is one edge for the path of the key: no operation on that key reads
  the store.\<close>

lemma Put_walk_on_edge:
  assumes "length kp = h" and "0 < h"
  shows "Put_walk D kvs h kp 0 (Some (Node kp u)) Map.empty = Inr Map.empty"
proof -
  have "Put_walk D kvs h kp 0 (Some (Node kp u)) Map.empty
          = Put_walk D kvs h kp h (Some (Node [] u)) Map.empty"
    using assms by (subst Put_walk.simps) (simp add: Len_def Walked_def)
  also have "\<dots> = Inr Map.empty"
    by (subst Put_walk.simps) simp
  finally show ?thesis .
qed

lemma Get_on_edge:
  assumes "root t = Some (Node (key_path (height t) key) u)" and "0 < height t"
  shows "fst (Get t key) = Inr (Some u)"
proof -
  let ?kp = "key_path (height t) key"
  have "Get_loop (storer t) (height t) ?kp 0 (Node ?kp u)
          = Get_loop (storer t) (height t) ?kp (height t) (Node [] u)"
    using assms(2) by (subst Get_loop.simps) (simp add: Len_def Walked_def EmptyPath_def)
  also have "\<dots> = Inr (Some u)"
    by (subst Get_loop.simps) simp
  finally show ?thesis
    using assms(1) by (simp add: Get_def key_path_def [symmetric])
qed

lemma Get_on_empty: "root t = None \<Longrightarrow> fst (Get t key) = Inr None"
  by (simp add: Get_def)

lemma Delete_up_no_siblings:
  "(\<And>j. j < i \<Longrightarrow> siblings ! j = None) \<Longrightarrow>
   Delete_up D kp siblings i None hash kvs = Inr (None, kvs)"
  by (induction i) simp_all

lemma Delete_on_edge:
  assumes "root t = Some (Node (key_path (height t) key) u)" and "0 < height t"
  shows "Delete D t key = Inr (t\<lparr>root := None, storer := storer t\<rparr>)"
proof -
  let ?kp = "key_path (height t) key"
  let ?sib = "replicate (height t) (None :: felt option)"
  have "Delete_walk D (storer t) (height t) ?kp 0 (Some (Node ?kp u)) ?sib
          = Delete_walk D (storer t) (height t) ?kp (height t) (Some (Node [] u)) ?sib"
    using assms(2) by (subst Delete_walk.simps) (simp add: Len_def Walked_def)
  also have "\<dots> = Inr (Some (Node [] u), ?sib)"
    by (subst Delete_walk.simps) simp
  finally have walk: "Delete_walk D (storer t) (height t) ?kp 0 (root t) ?sib
          = Inr (Some (Node [] u), ?sib)"
    using assms(1) by simp
  have up: "Delete_up D ?kp ?sib (height t) None None (storer t) = Inr (None, storer t)"
    by (rule Delete_up_no_siblings) simp
  show ?thesis
    using walk up by (simp add: Delete_def Let_def key_path_def [symmetric] Len_def)
qed

lemma bits_of_mod: "bits_of n x = bits_of n (x mod 2 ^ n)"
proof (induction n arbitrary: x)
  case 0
  show ?case by simp
next
  case (Suc n)
  have "odd (x mod (2 * 2 ^ n)) = odd x"
    by (simp add: mod_mult2_eq)
  moreover have "bits_of n (x div 2) = bits_of n (x mod (2 * 2 ^ n) div 2)"
    using Suc.IH [of "x div 2"] Suc.IH [of "x mod (2 * 2 ^ n) div 2"]
    by (simp add: mod_mult2_eq)
  ultimately show ?case by simp
qed

lemma be_nat_Felt_Bytes [simp]: "be_nat (Felt_Bytes f) = unat f"
proof -
  have "unat f < 256 ^ 32"
    using unsigned_less [of f, where 'a = nat] by simp
  then show ?thesis
    by (simp add: Felt_Bytes_def FeltLength_def be_nat_be_bytes)
qed

lemma Hash_edge:
  "p \<noteq> [] \<Longrightarrow> length p \<le> 251 \<Longrightarrow>
   unat (Hash D (Some (Node p v))) = (D (unat v) (path_nat p) + length p) mod stark_p"
proof -
  assume p: "p \<noteq> []" "length p \<le> 251"
  have sp: "stark_p < 2 ^ 256" by (simp add: stark_p_def)
  have lt: "\<And>x. x mod stark_p < 2 ^ 256"
    by (rule less_trans [OF _ sp]) (simp add: stark_p_def)
  have u: "\<And>x. unat (of_nat (x mod stark_p) :: felt) = x mod stark_p"
    using lt by (simp add: unat_of_nat)
  show ?thesis
    using p by (simp add: Hash_def Len_def Felt_Add_def BigToFelt_def Big_def u mod_add_left_eq
        mod_add_right_eq)
qed

lemma path_nat_key_path_0: "path_nat (key_path 251 0) = 0"
  by (simp add: key_path_def NewPath_def path_nat_bits_of)

lemma bits_of_msb: "bits_of (Suc n) x = odd (x div 2 ^ n) # bits_of n x"
proof (induction n arbitrary: x)
  case 0
  show ?case by simp
next
  case (Suc n)
  have "bits_of (Suc (Suc n)) x = bits_of (Suc n) (x div 2) @ [odd x]" by simp
  also have "\<dots> = (odd (x div 2 div 2 ^ n) # bits_of n (x div 2)) @ [odd x]"
    by (simp only: Suc.IH)
  also have "\<dots> = odd (x div 2 ^ Suc n) # bits_of (Suc n) x"
    by (simp add: div_mult2_eq)
  finally show ?case .
qed

lemma key_path_0: "key_path 251 0 = False # replicate 250 False"
proof -
  have "key_path 251 0 = replicate (Suc 250) False"
    by (simp add: key_path_def NewPath_def bits_of_zero)
  then show ?thesis by (simp only: replicate_Suc)
qed

lemma key_path_2_250: "key_path 251 (2 ^ 250) = True # replicate 250 False"
proof -
  have u: "unat (2 ^ 250 :: felt) = 2 ^ 250" by simp
  have "bits_of (Suc 250) (2 ^ 250) = odd ((2 :: nat) ^ 250 div 2 ^ 250) # bits_of 250 (2 ^ 250)"
    by (rule bits_of_msb)
  also have "bits_of 250 (2 ^ 250) = bits_of 250 (2 ^ 250 mod 2 ^ 250)"
    by (rule bits_of_mod)
  finally have "bits_of (Suc 250) (2 ^ 250) = True # replicate 250 False"
    by (simp add: bits_of_zero)
  moreover have "key_path 251 (2 ^ 250) = bits_of (Suc 250) (2 ^ 250)"
    by (simp add: key_path_def NewPath_def u)
  ultimately show ?thesis by simp
qed

lemma NewTrie_nil: "NewTrie st None h = Inr \<lparr>root = None, storer = st, height = h\<rparr>"
  by (simp add: NewTrie_def)

lemma Hash_key_path_0:
  "unat (Hash D (Some (Node (key_path 251 0) v))) = (D (unat v) 0 + 251) mod stark_p"
proof -
  have "key_path 251 0 \<noteq> []" by (simp add: key_path_0)
  then show ?thesis
    using Hash_edge [of "key_path 251 0" D v] by (simp add: path_nat_key_path_0)
qed

section \<open>The store after an update\<close>

lemma storeByH_tag0 [simp]: "storeByH kvs k n (0 # x) = kvs (0 # x)"
  by (simp add: storeByH_def)

lemma storeByP_tag1 [simp]: "storeByP kvs k a b (1 # x) = kvs (1 # x)"
  by (simp add: storeByP_def)

lemma storeByH_tag1 [simp]:
  "storeByH kvs k n (1 # Felt_Bytes k') = (if k' = k then Some (Marshal n) else kvs (1 # Felt_Bytes k'))"
  by (simp add: storeByH_def)

lemma storeByP_tag0 [simp]:
  "storeByP kvs k a b (0 # Felt_Bytes k')
     = (if k' = k then Some (Felt_Bytes a @ Felt_Bytes b) else kvs (0 # Felt_Bytes k'))"
  by (simp add: storeByP_def)

lemma storeByP_tag0_other:
  "x \<noteq> Felt_Bytes k \<Longrightarrow> storeByP kvs k a b (0 # x) = kvs (0 # x)"
  by (simp add: storeByP_def)

lemma retrieveByH_entry:
  "kvs (1 # Felt_Bytes k) = Some (Marshal n) \<Longrightarrow> length (Path n) \<le> 251 \<Longrightarrow>
   retrieveByH kvs k = Inr n"
  by (simp add: retrieveByH_def Unmarshal_Marshal)

lemma retrieveByP_entry:
  "kvs (0 # Felt_Bytes k) = Some (Felt_Bytes a @ Felt_Bytes b) \<Longrightarrow>
   retrieveByP kvs k = Inr (a, b)"
  by (simp add: retrieveByP_def FeltLength_def)

lemma retrieveByP_absent:
  "kvs (0 # Felt_Bytes k) = None \<Longrightarrow> retrieveByP kvs k = Inl ErrNotFound"
  by (simp add: retrieveByP_def)

text \<open>The second loop of \<^verbatim>\<open>Put\<close> over positions without a sibling: every round puts the
  bit of the key in front of the path of the node and stores the node under its hash.\<close>

lemma Put_up_None_step:
  assumes "siblings i = None"
  shows "Put_up D path siblings (Suc i) (Node q b) hash kvs =
     Put_up D path siblings i (Node (path ! i # q) b) (Hash D (Some (Node (path ! i # q) b)))
       (storeByH kvs (Hash D (Some (Node (path ! i # q) b))) (Node (path ! i # q) b))"
  using assms by (simp add: computeH_def Let_def Path_Get_def Path_Set_def)

lemma Put_up_stretch_node:
  "i \<le> length path \<Longrightarrow> (\<forall>j<i. siblings j = None) \<Longrightarrow>
   fst (Put_up D path siblings i (Node q b) hash kvs) = Node (take i path @ q) b"
proof (induction i arbitrary: q hash kvs)
  case 0
  show ?case by simp
next
  case (Suc i)
  then have i: "i < length path" and none: "siblings i = None" by simp_all
  have t: "take (Suc i) path = take i path @ [path ! i]"
    using i by (simp add: take_Suc_conv_app_nth)
  from Suc.prems have "\<forall>j<i. siblings j = None" by simp
  with Suc.IH [of "path ! i # q"] i show ?case
    by (simp only: Put_up_None_step [where siblings = siblings and i = i, OF none] t) simp
qed

lemma Put_up_stretch_P:
  "(\<forall>j<i. siblings j = None) \<Longrightarrow>
   snd (Put_up D path siblings i (Node q b) hash kvs) (0 # x) = kvs (0 # x)"
proof (induction i arbitrary: q hash kvs)
  case 0
  show ?case by simp
next
  case (Suc i)
  then have none: "siblings i = None" by simp
  from Suc.prems have "\<forall>j<i. siblings j = None" by simp
  from Suc.IH [OF this] show ?case
    by (simp only: Put_up_None_step [where siblings = siblings and i = i, OF none]) simp
qed

lemma Put_up_stretch_miss:
  "i \<le> length path \<Longrightarrow> (\<forall>j<i. siblings j = None) \<Longrightarrow>
   (\<forall>j<i. Hash D (Some (Node (drop j (take i path) @ q) b)) \<noteq> k) \<Longrightarrow>
   snd (Put_up D path siblings i (Node q b) hash kvs) (1 # Felt_Bytes k) = kvs (1 # Felt_Bytes k)"
proof (induction i arbitrary: q hash kvs)
  case 0
  show ?case by simp
next
  case (Suc i)
  then have i: "i < length path" and none: "siblings i = None" by simp_all
  have t: "take (Suc i) path = take i path @ [path ! i]"
    using i by (simp add: take_Suc_conv_app_nth)
  have le: "i \<le> length path" using i by simp
  have nones: "\<forall>j<i. siblings j = None" using Suc.prems by simp
  have miss: "\<forall>j<i. Hash D (Some (Node (drop j (take i path) @ path ! i # q) b)) \<noteq> k"
  proof (intro allI impI)
    fix j assume j: "j < i"
    then have "Hash D (Some (Node (drop j (take (Suc i) path) @ q) b)) \<noteq> k"
      using Suc.prems(3) by simp
    moreover have "drop j (take (Suc i) path) @ q = drop j (take i path) @ path ! i # q"
      using j i by (simp add: t)
    ultimately show "Hash D (Some (Node (drop j (take i path) @ path ! i # q) b)) \<noteq> k"
      by simp
  qed
  have "Hash D (Some (Node (drop i (take (Suc i) path) @ q) b)) \<noteq> k"
    using Suc.prems(3) by simp
  moreover have "drop i (take (Suc i) path) = [path ! i]"
    using i by (simp add: t)
  ultimately have first: "Hash D (Some (Node (path ! i # q) b)) \<noteq> k" by simp
  from Suc.IH [OF le nones miss] first show ?case
    by (simp only: Put_up_None_step [where siblings = siblings and i = i, OF none]) simp
qed

lemma Put_up_stretch_top:
  "0 < i \<Longrightarrow> i \<le> length path \<Longrightarrow> (\<forall>j<i. siblings j = None) \<Longrightarrow>
   snd (Put_up D path siblings i (Node q b) hash kvs)
       (1 # Felt_Bytes (Hash D (Some (Node (take i path @ q) b))))
     = Some (Marshal (Node (take i path @ q) b))"
proof (induction i arbitrary: q hash kvs)
  case 0
  then show ?case by simp
next
  case (Suc i)
  then have i: "i < length path" and none: "siblings i = None" by simp_all
  have t: "take (Suc i) path = take i path @ [path ! i]"
    using i by (simp add: take_Suc_conv_app_nth)
  note step = Put_up_None_step [where siblings = siblings and i = i, OF none, of D path q b hash kvs]
  show ?case
  proof (cases "i = 0")
    case True
    have "take i path = []" using True by simp
    then show ?thesis
      unfolding step t using True by simp
  next
    case False
    then have pos: "0 < i" by simp
    have le: "i \<le> length path" using i by simp
    have nones: "\<forall>j<i. siblings j = None" using Suc.prems by simp
    from Suc.IH [OF pos le nones, of "path ! i # q"] show ?thesis
      by (simp only: Put_up_None_step [where siblings = siblings and i = i, OF none] t) simp
  qed
qed

lemma Put_up_split:
  "0 < k \<Longrightarrow> m + k \<le> length path \<Longrightarrow> (\<forall>j. m \<le> j \<and> j < m + k \<longrightarrow> siblings j = None) \<Longrightarrow>
   Put_up D path siblings (m + k) (Node q b) hash kvs =
     Put_up D path siblings m (fst (Put_up D (drop m path) Map.empty k (Node q b) hash kvs))
       (Hash D (Some (fst (Put_up D (drop m path) Map.empty k (Node q b) hash kvs))))
       (snd (Put_up D (drop m path) Map.empty k (Node q b) hash kvs))"
proof (induction k arbitrary: q hash kvs)
  case 0
  then show ?case by simp
next
  case (Suc k)
  have none: "siblings (m + k) = None" using Suc.prems(3) by simp
  have none': "(Map.empty :: nat \<rightharpoonup> felt) k = None" by simp
  have nth: "drop m path ! k = path ! (m + k)"
    using Suc.prems(2) by simp
  have l: "Put_up D path siblings (m + Suc k) (Node q b) hash kvs =
     Put_up D path siblings (m + k) (Node (path ! (m + k) # q) b)
       (Hash D (Some (Node (path ! (m + k) # q) b)))
       (storeByH kvs (Hash D (Some (Node (path ! (m + k) # q) b))) (Node (path ! (m + k) # q) b))"
    using Put_up_None_step [where siblings = siblings and i = "m + k", OF none, of D path q b hash kvs] by simp
  have r: "Put_up D (drop m path) Map.empty (Suc k) (Node q b) hash kvs =
     Put_up D (drop m path) Map.empty k (Node (path ! (m + k) # q) b)
       (Hash D (Some (Node (path ! (m + k) # q) b)))
       (storeByH kvs (Hash D (Some (Node (path ! (m + k) # q) b))) (Node (path ! (m + k) # q) b))"
    using Put_up_None_step [where siblings = Map.empty and i = k, OF none', of D "drop m path" q b hash kvs] by (simp only: nth)
  show ?case
  proof (cases "k = 0")
    case True
    then show ?thesis unfolding l r by simp
  next
    case False
    then have pos: "0 < k" by simp
    have le: "m + k \<le> length path" using Suc.prems(2) by simp
    have nones: "\<forall>j. m \<le> j \<and> j < m + k \<longrightarrow> siblings j = None" using Suc.prems(3) by simp
    show ?thesis
      unfolding l r by (rule Suc.IH [OF pos le nones])
  qed
qed

lemma Delete_up_skip:
  "(\<forall>j. m \<le> j \<and> j < m + k \<longrightarrow> siblings ! j = None) \<Longrightarrow>
   Delete_up D path siblings (m + k) None hash kvs = Delete_up D path siblings m None hash kvs"
  by (induction k) simp_all

section \<open>A leaf stored over a node\<close>

text \<open>\<^verbatim>\<open>Put\<close> of a key that leaves the root edge at its first bit: the walk reads nothing
  from the store, the leaf is stored under its value, the edges above it under their
  hashes, and the pair of the two children under the bottom of the new root.\<close>

lemma Put_right_of_edge:
  fixes D :: digest and r r' :: path and a v :: felt
  defines "sH \<equiv> Hash D (Some (Node r a))"
    and "hR \<equiv> Hash D (Some (Node r' v))"
  defines "p \<equiv> BigToFelt (D (Big sH) (Big hR))"
  assumes kp: "key_path (Suc n) key = True # r'" and n: "0 < n"
  shows "\<exists>s2. Put D \<lparr>root = Some (Node (False # r) a), storer = s1, height = Suc n\<rparr> key v
               = Inr \<lparr>root = Some (Node [] p), storer = s2, height = Suc n\<rparr>
           \<and> s2 (0 # Felt_Bytes p) = Some (Felt_Bytes sH @ Felt_Bytes hR)
           \<and> (\<forall>x. x \<noteq> Felt_Bytes p \<longrightarrow> s2 (0 # x) = s1 (0 # x))
           \<and> (p \<noteq> hR \<longrightarrow> s2 (1 # Felt_Bytes hR) = Some (Marshal (Node r' v)))
           \<and> (p \<noteq> v \<longrightarrow> (\<forall>j<n. Hash D (Some (Node (drop j r') v)) \<noteq> v)
                 \<longrightarrow> s2 (1 # Felt_Bytes v) = Some (Marshal (Node [] v)))"
proof -
  let ?t = "\<lparr>root = Some (Node (False # r) a), storer = s1, height = Suc n\<rparr>"
  let ?path = "True # r'"
  let ?sib = "[0 \<mapsto> sH] :: nat \<rightharpoonup> felt"
  let ?leaf = "storeByH s1 v (Node [] v)"
  have lr': "length r' = n"
    using key_path_length [of "Suc n" key] by (simp add: kp)
  have walk: "Put_walk D s1 (Suc n) ?path 0 (Some (Node (False # r) a)) Map.empty = Inr ?sib"
    by (subst Put_walk.simps) (simp add: Len_def Walked_def sH_def)
  have leaf: "computeH D s1 (Node EmptyPath v) = (v, ?leaf)"
    by (simp add: computeH_def Hash_def Len_def EmptyPath_def)
  let ?up = "Put_up D r' Map.empty n (Node [] v) v ?leaf"
  have node: "fst ?up = Node r' v"
    using Put_up_stretch_node [of n r' Map.empty D "[]" v v ?leaf] lr' by simp
  have split: "Put_up D ?path ?sib (Suc n) (Node [] v) v ?leaf
                 = Put_up D ?path ?sib 1 (Node r' v) hR (snd ?up)"
    using Put_up_split [of n 1 ?path ?sib D "[]" v v ?leaf] n lr' node
    by (simp add: hR_def del: Put_up.simps)
  let ?s2 = "storeByH (storeByP (snd ?up) p sH hR) p (Node [] p)"
  have top: "Put_up D ?path ?sib 1 (Node r' v) hR (snd ?up) = (Node [] p, ?s2)"
    by (simp add: computeP_def computeH_def Path_Get_def Let_def p_def Hash_def Len_def
        EmptyPath_def)
  have put: "Put D ?t key v = Inr \<lparr>root = Some (Node [] p), storer = ?s2, height = Suc n\<rparr>"
    using walk leaf split top lr'
    by (simp add: Put_def Let_def key_path_def [symmetric] kp Len_def EmptyPath_def
        del: Put_up.simps)
  have P: "?s2 (0 # Felt_Bytes p) = Some (Felt_Bytes sH @ Felt_Bytes hR)"
    by simp
  have others: "\<forall>x. x \<noteq> Felt_Bytes p \<longrightarrow> ?s2 (0 # x) = s1 (0 # x)"
    using Put_up_stretch_P [of n Map.empty D r' "[]" v v ?leaf]
    by (simp add: storeByP_tag0_other)
  have right: "p \<noteq> hR \<longrightarrow> ?s2 (1 # Felt_Bytes hR) = Some (Marshal (Node r' v))"
    using Put_up_stretch_top [of n r' Map.empty D "[]" v v ?leaf] n lr'
    by (simp add: hR_def)
  have left: "p \<noteq> v \<longrightarrow> (\<forall>j<n. Hash D (Some (Node (drop j r') v)) \<noteq> v)
                 \<longrightarrow> ?s2 (1 # Felt_Bytes v) = Some (Marshal (Node [] v))"
    using Put_up_stretch_miss [where i = n and path = r' and siblings = Map.empty and D = D
        and q = "[]" and b = v and k = v and hash = v and kvs = ?leaf] lr'
    by simp
  from put P others right left show ?thesis
    by (intro exI [of _ ?s2]) (simp only: simp_thms)
qed

text \<open>A root with an empty path whose left child, read through the store, is a node
  with an empty path that has no pair stored: \<^verbatim>\<open>Get\<close> and \<^verbatim>\<open>Put\<close> of a key that goes left
  end in \<^verbatim>\<open>ErrNotFound\<close>.\<close>

lemma Get_into_leaf:
  assumes "root t = Some (Node [] p)" and "height t = Suc n" and "0 < n"
    and "p \<noteq> 0" and "v \<noteq> 0"
    and "storer t (0 # Felt_Bytes p) = Some (Felt_Bytes l @ Felt_Bytes rr)"
    and "storer t (1 # Felt_Bytes l) = Some (Marshal (Node [] v))"
    and "storer t (0 # Felt_Bytes v) = None"
    and "key_path (Suc n) key = False # r"
  shows "fst (Get t key) = Inl ErrNotFound"
proof -
  have P: "retrieveByP (storer t) p = Inr (l, rr)"
    using assms(6) by (rule retrieveByP_entry [of "storer t"])
  have H: "retrieveByH (storer t) l = Inr (Node [] v)"
    using assms(7) by (rule retrieveByH_entry [of "storer t"]) simp
  have N: "retrieveByP (storer t) v = Inl ErrNotFound"
    using assms(8) by (rule retrieveByP_absent [of "storer t"])
  have "Get_loop (storer t) (Suc n) (False # r) 0 (Node [] p)
          = Get_loop (storer t) (Suc n) (False # r) 1 (Node [] v)"
    using assms(4) P H
    by (subst Get_loop.simps) (simp add: Len_def Felt0_def Path_Get_def)
  also have "\<dots> = Inl ErrNotFound"
    using assms(3,5) N
    by (subst Get_loop.simps) (simp add: Len_def Felt0_def)
  finally show ?thesis
    using assms(1,2,9) by (simp add: Get_def key_path_def [symmetric])
qed

lemma Put_into_leaf:
  assumes "root t = Some (Node [] p)" and "height t = Suc n" and "0 < n"
    and "p \<noteq> 0" and "v \<noteq> 0"
    and "storer t (0 # Felt_Bytes p) = Some (Felt_Bytes l @ Felt_Bytes rr)"
    and "storer t (1 # Felt_Bytes l) = Some (Marshal (Node [] v))"
    and "storer t (0 # Felt_Bytes v) = None"
    and "key_path (Suc n) key = False # r"
  shows "Put D t key w = Inl ErrNotFound"
proof -
  have P: "retrieveByP (storer t) p = Inr (l, rr)"
    using assms(6) by (rule retrieveByP_entry [of "storer t"])
  have H: "retrieveByH (storer t) l = Inr (Node [] v)"
    using assms(7) by (rule retrieveByH_entry [of "storer t"]) simp
  have N: "retrieveByP (storer t) v = Inl ErrNotFound"
    using assms(8) by (rule retrieveByP_absent [of "storer t"])
  have "Put_walk D (storer t) (Suc n) (False # r) 0 (Some (Node [] p)) Map.empty
          = Put_walk D (storer t) (Suc n) (False # r) 1 (Some (Node [] v)) [0 \<mapsto> rr]"
    using assms(4) P H
    by (subst Put_walk.simps) (simp add: Len_def Felt0_def Path_Get_def)
  also have "\<dots> = Inl ErrNotFound"
    using assms(3,5) N
    by (subst Put_walk.simps) (simp add: Len_def Felt0_def)
  finally show ?thesis
    using assms(1,2,9) by (simp add: Put_def Let_def key_path_def [symmetric])
qed

text \<open>\<^verbatim>\<open>Delete\<close> of the key on the right of such a root: the sibling read through the store
  is the node with the empty path, and the new root is an edge of one bit to it.\<close>

lemma Delete_beside_leaf:
  assumes "root t = Some (Node [] p)" and "height t = Suc n" and "0 < n" and "n \<le> 250"
    and "p \<noteq> 0"
    and "storer t (0 # Felt_Bytes p) = Some (Felt_Bytes l @ Felt_Bytes hR)"
    and "storer t (1 # Felt_Bytes hR) = Some (Marshal (Node r' v))"
    and "storer t (1 # Felt_Bytes l) = Some (Marshal (Node [] u))"
    and "key_path (Suc n) key = True # r'"
  shows "\<exists>s. Delete D t key = Inr (t\<lparr>root := Some (Node [False] u), storer := s\<rparr>)"
proof -
  let ?path = "True # r'"
  let ?nil = "replicate (Suc n) (None :: felt option)"
  let ?sib = "?nil[0 := Some l]"
  have lr': "length r' = n"
    using key_path_length [of "Suc n" key] by (simp add: assms(9))
  have P: "retrieveByP (storer t) p = Inr (l, hR)"
    using assms(6) by (rule retrieveByP_entry [of "storer t"])
  have R: "retrieveByH (storer t) hR = Inr (Node r' v)"
    using assms(7) by (rule retrieveByH_entry [of "storer t"]) (use lr' assms(4) in simp)
  have L: "retrieveByH (storer t) l = Inr (Node [] u)"
    using assms(8) by (rule retrieveByH_entry [of "storer t"]) simp
  have "Delete_walk D (storer t) (Suc n) ?path 0 (Some (Node [] p)) ?nil
          = Delete_walk D (storer t) (Suc n) ?path 1 (Some (Node r' v)) ?sib"
    using assms(5) P R
    by (subst Delete_walk.simps) (simp add: Len_def Felt0_def Path_Get_def)
  also have "\<dots> = Delete_walk D (storer t) (Suc n) ?path (Suc n) (Some (Node [] v)) ?sib"
    using assms(3) lr'
    by (subst Delete_walk.simps) (simp add: Len_def Walked_def)
  also have "\<dots> = Inr (Some (Node [] v), ?sib)"
    by (subst Delete_walk.simps) simp
  finally have walk: "Delete_walk D (storer t) (Suc n) ?path 0 (Some (Node [] p)) ?nil
          = Inr (Some (Node [] v), ?sib)" .
  have skip: "Delete_up D ?path ?sib (1 + n) None None (storer t)
                = Delete_up D ?path ?sib 1 None None (storer t)"
    by (rule Delete_up_skip) auto
  let ?s = "storeByH (storer t) (Hash D (Some (Node [False] u))) (Node [False] u)"
  have "NewPath (Suc (Len ([] :: path))) (Path_Bytes []) = [False]"
    by (rule NewPath_extend)
  then have np: "NewPath (Suc 0) (Path_Bytes []) = [False]"
    by (simp add: Len_def)
  have "Delete_up D ?path ?sib 1 None None (storer t) = Inr (Some (Node [False] u), ?s)"
    using L np by (simp add: Path_Get_def Len_def computeH_def Let_def)
  with skip have up: "Delete_up D ?path ?sib (Suc n) None None (storer t)
                        = Inr (Some (Node [False] u), ?s)"
    by (simp del: Delete_up.simps)
  have "Delete D t key = Inr (t\<lparr>root := Some (Node [False] u), storer := ?s\<rparr>)"
    using walk up assms(1,2,9) lr'
    by (simp add: Delete_def Let_def key_path_def [symmetric] Len_def del: Delete_up.simps)
  then show ?thesis by (intro exI [of _ ?s])
qed

lemma longestCommonPrefix_replicate:
  "longestCommonPrefix (replicate n x @ p) (replicate n x @ q) = n + longestCommonPrefix p q"
  by (induction n) simp_all

text \<open>\<^verbatim>\<open>Put\<close> on the empty trie or on the edge of the key itself, with the store it
  leaves.\<close>

lemma Put_same_path:
  assumes "root t = None \<or> root t = Some (Node (key_path (height t) key) u)" and "0 < height t"
  shows "Put D t key v
           = Inr (t\<lparr>root := Some (Node (key_path (height t) key) v),
                   storer := snd (Put_up D (key_path (height t) key) Map.empty (height t)
                                    (Node [] v) v (storeByH (storer t) v (Node [] v)))\<rparr>)"
proof -
  let ?kp = "key_path (height t) key"
  let ?up = "Put_up D ?kp Map.empty (height t) (Node [] v) v (storeByH (storer t) v (Node [] v))"
  have walk: "Put_walk D (storer t) (height t) ?kp 0 (root t) Map.empty = Inr Map.empty"
    using assms(1)
  proof
    assume "root t = None"
    then show ?thesis by (subst Put_walk.simps) simp
  next
    assume "root t = Some (Node ?kp u)"
    then show ?thesis using Put_walk_on_edge [of ?kp "height t" D "storer t" u] assms(2) by simp
  qed
  have leaf: "computeH D (storer t) (Node EmptyPath v) = (v, storeByH (storer t) v (Node [] v))"
    by (simp add: computeH_def Hash_def Len_def EmptyPath_def)
  have "fst ?up = Node (take (height t) ?kp @ []) v"
    by (rule Put_up_stretch_node) simp_all
  then have node: "fst ?up = Node ?kp v"
    by simp
  show ?thesis
    using walk leaf node
    by (simp add: Put_def Let_def key_path_def [symmetric] Len_def EmptyPath_def
        case_prod_beta del: Put_up.simps)
qed

text \<open>\<^verbatim>\<open>Put\<close> of a key that leaves the root edge at its last bit, to the right.\<close>

lemma Put_inside_edge:
  assumes kp: "key_path (Suc n) key = replicate n False @ [True]" and n: "0 < n"
  shows "\<exists>s. Put D \<lparr>root = Some (Node (replicate n False @ [False]) a), storer = s1,
                     height = Suc n\<rparr> key w
            = Inr \<lparr>root = Some (Node (replicate n False) (BigToFelt (D (Big a) (Big w)))),
                   storer = s, height = Suc n\<rparr>"
proof -
  let ?path = "replicate n False @ [True]"
  let ?t = "\<lparr>root = Some (Node (replicate n False @ [False]) a), storer = s1, height = Suc n\<rparr>"
  let ?sib = "[n \<mapsto> a] :: nat \<rightharpoonup> felt"
  let ?p1 = "BigToFelt (D (Big a) (Big w))"
  have lcp: "longestCommonPrefix (replicate n False @ [False]) ?path = n"
    by (simp add: longestCommonPrefix_replicate)
  have "Put_walk D s1 (Suc n) ?path 0 (Some (Node (replicate n False @ [False]) a)) Map.empty
          = Put_walk D s1 (Suc n) ?path n (Some (Node [False] a)) Map.empty"
    using n by (subst Put_walk.simps) (simp add: Len_def Walked_def lcp)
  also have "\<dots> = Inr ?sib"
    by (subst Put_walk.simps) (simp add: Len_def Walked_def Hash_def)
  finally have walk: "Put_walk D s1 (Suc n) ?path 0 (root ?t) Map.empty = Inr ?sib"
    by simp
  let ?leaf = "storeByH s1 w (Node [] w)"
  have leaf: "computeH D s1 (Node EmptyPath w) = (w, ?leaf)"
    by (simp add: computeH_def Hash_def Len_def EmptyPath_def)
  let ?s2 = "storeByH (storeByP ?leaf ?p1 a w) ?p1 (Node [] ?p1)"
  have step: "Put_up D ?path ?sib (Suc n) (Node [] w) w ?leaf
                = Put_up D ?path ?sib n (Node [] ?p1) ?p1 ?s2"
    by (simp add: computeP_def computeH_def Path_Get_def Let_def Hash_def Len_def EmptyPath_def
        nth_append)
  have "fst (Put_up D ?path ?sib n (Node [] ?p1) ?p1 ?s2) = Node (take n ?path @ []) ?p1"
    by (rule Put_up_stretch_node) simp_all
  then have node: "fst (Put_up D ?path ?sib n (Node [] ?p1) ?p1 ?s2) = Node (replicate n False) ?p1"
    by simp
  have "Put D ?t key w = Inr \<lparr>root = Some (Node (replicate n False) ?p1),
          storer = snd (Put_up D ?path ?sib n (Node [] ?p1) ?p1 ?s2), height = Suc n\<rparr>"
    using walk leaf node
    by (simp add: Put_def Let_def key_path_def [symmetric] kp Len_def EmptyPath_def step
        case_prod_beta del: Put_up.simps)
  then show ?thesis by blast
qed

section \<open>The hashes of the examples\<close>

lemma path_nat_replicate_False [simp]: "path_nat (replicate n False) = 0"
  using path_nat_bits_of [of n 0] by (simp add: bits_of_zero)

lemma Hash_zero_edge:
  assumes "0 < L" and "L \<le> 251" and "D (unat b) 0 + L < stark_p"
  shows "unat (Hash D (Some (Node (replicate L False) b))) = D (unat b) 0 + L"
  using Hash_edge [of "replicate L False" D b] assms by simp

lemma felt_eqI: "unat (x :: felt) = unat y \<Longrightarrow> x = y"
  by (simp add: word_unat_eq_iff)

lemma example_hash_1: "Hash example_digest (Some (Node (replicate 250 False) 1)) = 1250"
proof -
  have "unat (Hash example_digest (Some (Node (replicate 250 False) 1)))
          = example_digest (unat (1 :: felt)) 0 + 250"
    by (rule Hash_zero_edge) (simp_all add: example_digest_def stark_p_def)
  then have "unat (Hash example_digest (Some (Node (replicate 250 False) 1)))
               = unat (1250 :: felt)"
    by (simp add: example_digest_def)
  then show ?thesis by (rule felt_eqI)
qed

lemma example_hash_1250:
  assumes "0 < L" and "L \<le> 251"
  shows "unat (Hash example_digest (Some (Node (replicate L False) 1250))) = 781875000 + L"
proof -
  have "unat (Hash example_digest (Some (Node (replicate L False) 1250)))
          = example_digest (unat (1250 :: felt)) 0 + L"
    by (rule Hash_zero_edge) (use assms in \<open>simp_all add: example_digest_def stark_p_def\<close>)
  then show ?thesis
    by (simp add: example_digest_def)
qed

lemma example_hash_right:
  "Hash example_digest (Some (Node (replicate 250 False) 1250)) = 781875250"
proof -
  have "unat (Hash example_digest (Some (Node (replicate 250 False) 1250))) = 781875000 + 250"
    by (rule example_hash_1250) simp_all
  then have "unat (Hash example_digest (Some (Node (replicate 250 False) 1250)))
               = unat (781875250 :: felt)"
    by simp
  then show ?thesis by (rule felt_eqI)
qed

lemma example_hash_stretch:
  "\<forall>j<250. Hash example_digest (Some (Node (drop j (replicate 250 False)) 1250)) \<noteq> 1250"
proof (intro allI impI)
  fix j :: nat assume j: "j < 250"
  have "unat (Hash example_digest (Some (Node (replicate (250 - j) False) 1250)))
          = 781875000 + (250 - j)"
    by (rule example_hash_1250) (use j in simp_all)
  then have "unat (Hash example_digest (Some (Node (replicate (250 - j) False) 1250)))
               \<noteq> unat (1250 :: felt)"
    by simp
  then show "Hash example_digest (Some (Node (drop j (replicate 250 False)) 1250)) \<noteq> 1250"
    by auto
qed

lemma example_root:
  "BigToFelt (example_digest (Big 1250) (Big 781875250)) = 305665431798938500000"
  by (simp add: BigToFelt_def Big_def example_digest_def stark_p_def)

section \<open>The tries of the examples\<close>

lemma key_path_1: "key_path 251 1 = replicate 250 False @ [True]"
proof -
  have "bits_of (Suc 250) 1 = bits_of 250 0 @ [True]"
    by (simp only: bits_of.simps) simp
  then have "bits_of 251 1 = replicate 250 False @ [True]"
    by (simp add: bits_of_zero)
  then show ?thesis
    by (simp add: key_path_def NewPath_def)
qed

lemma key_path_5: "key_path 251 5 = False # bits_of 250 5"
proof -
  have "bits_of (Suc 250) 5 = odd ((5 :: nat) div 2 ^ 250) # bits_of 250 5"
    by (rule bits_of_msb)
  then have "bits_of 251 5 = False # bits_of 250 5"
    by simp
  then show ?thesis
    by (simp add: key_path_def NewPath_def)
qed

lemma key_path_0_snoc: "key_path 251 0 = replicate 250 False @ [False]"
proof -
  have "False # replicate 250 False = replicate 250 False @ [False]"
    by (rule replicate_append_same [symmetric])
  then show ?thesis by (simp only: key_path_0)
qed

text \<open>The trie with the key 0 and the value 1.\<close>

lemma example_one:
  "\<exists>s1. Put example_digest \<lparr>root = None, storer = Map.empty, height = 251\<rparr> 0 1
           = Inr \<lparr>root = Some (Node (key_path 251 0) 1), storer = s1, height = 251\<rparr>
       \<and> (\<forall>x. s1 (0 # x) = None)"
proof -
  let ?t = "\<lparr>root = None, storer = Map.empty, height = 251\<rparr>"
  let ?s = "snd (Put_up example_digest (key_path 251 0) Map.empty 251 (Node [] 1) 1
                   (storeByH Map.empty 1 (Node [] 1)))"
  have "Put example_digest ?t 0 1
          = Inr (?t\<lparr>root := Some (Node (key_path (height ?t) 0) 1),
                  storer := snd (Put_up example_digest (key_path (height ?t) 0) Map.empty (height ?t)
                              (Node [] 1) 1 (storeByH (storer ?t) 1 (Node [] 1)))\<rparr>)"
    by (rule Put_same_path) simp_all
  then have put: "Put example_digest ?t 0 1
          = Inr \<lparr>root = Some (Node (key_path 251 0) 1), storer = ?s, height = 251\<rparr>"
    by (simp del: Put_up.simps)
  have "\<forall>x. ?s (0 # x) = None"
  proof
    fix x
    have "?s (0 # x) = storeByH Map.empty 1 (Node [] 1) (0 # x)"
      by (rule Put_up_stretch_P) simp
    then show "?s (0 # x) = None" by simp
  qed
  with put show ?thesis by blast
qed

text \<open>After the put of the key \<open>2 ^ 250\<close> with the value 1250, which is the hash of the
  edge of 250 bits to the value 1: the leaf is stored under 1250, where that edge was.\<close>

lemma example_two:
  assumes "\<forall>x. s1 (0 # x) = None"
  shows "\<exists>s2. Put example_digest \<lparr>root = Some (Node (key_path 251 0) 1), storer = s1,
                   height = 251\<rparr> (2 ^ 250) 1250
            = Inr \<lparr>root = Some (Node [] 305665431798938500000), storer = s2, height = 251\<rparr>
        \<and> s2 (0 # Felt_Bytes 305665431798938500000)
            = Some (Felt_Bytes 1250 @ Felt_Bytes 781875250)
        \<and> s2 (0 # Felt_Bytes 1250) = None
        \<and> s2 (1 # Felt_Bytes 781875250) = Some (Marshal (Node (replicate 250 False) 1250))
        \<and> s2 (1 # Felt_Bytes 1250) = Some (Marshal (Node [] 1250))"
proof -
  have ne: "(305665431798938500000 :: felt) \<noteq> 781875250" "(305665431798938500000 :: felt) \<noteq> 1250"
    by simp_all
  have S: "Suc 250 = 251" by simp
  have kp: "key_path (Suc 250) (2 ^ 250) = True # replicate 250 False"
    by (simp only: S key_path_2_250)
  have pos: "0 < (250 :: nat)" by simp
  from Put_right_of_edge [of 250 "2 ^ 250" "replicate 250 False" example_digest
      "replicate 250 False" 1 s1 1250, OF kp pos]
  obtain s2 where put: "Put example_digest \<lparr>root = Some (Node (False # replicate 250 False) 1),
          storer = s1, height = Suc 250\<rparr> (2 ^ 250) 1250
            = Inr \<lparr>root = Some (Node [] 305665431798938500000), storer = s2, height = Suc 250\<rparr>"
    and P: "s2 (0 # Felt_Bytes 305665431798938500000)
              = Some (Felt_Bytes 1250 @ Felt_Bytes 781875250)"
    and others: "\<forall>x. x \<noteq> Felt_Bytes 305665431798938500000 \<longrightarrow> s2 (0 # x) = s1 (0 # x)"
    and right: "s2 (1 # Felt_Bytes 781875250) = Some (Marshal (Node (replicate 250 False) 1250))"
    and left: "s2 (1 # Felt_Bytes 1250) = Some (Marshal (Node [] 1250))"
    using ne example_hash_stretch
    by (auto simp only: example_hash_1 example_hash_right example_root simp_thms)
  have "s2 (0 # Felt_Bytes 1250) = s1 (0 # Felt_Bytes 1250)"
    using others ne by simp
  then have none: "s2 (0 # Felt_Bytes 1250) = None"
    using assms by simp
  from S put have "Put example_digest \<lparr>root = Some (Node (key_path 251 0) 1), storer = s1,
                   height = 251\<rparr> (2 ^ 250) 1250
            = Inr \<lparr>root = Some (Node [] 305665431798938500000), storer = s2, height = 251\<rparr>"
    by (simp only: key_path_0)
  with P none right left show ?thesis by blast
qed

lemma example_puts:
  "\<exists>s2. puts example_digest \<lparr>root = None, storer = Map.empty, height = 251\<rparr>
             [(0, 1), (2 ^ 250, 1250)]
            = Inr \<lparr>root = Some (Node [] 305665431798938500000), storer = s2, height = 251\<rparr>
        \<and> s2 (0 # Felt_Bytes 305665431798938500000)
            = Some (Felt_Bytes 1250 @ Felt_Bytes 781875250)
        \<and> s2 (0 # Felt_Bytes 1250) = None
        \<and> s2 (1 # Felt_Bytes 781875250) = Some (Marshal (Node (replicate 250 False) 1250))
        \<and> s2 (1 # Felt_Bytes 1250) = Some (Marshal (Node [] 1250))"
proof -
  from example_one obtain s1 where one: "Put example_digest
      \<lparr>root = None, storer = Map.empty, height = 251\<rparr> 0 1
           = Inr \<lparr>root = Some (Node (key_path 251 0) 1), storer = s1, height = 251\<rparr>"
    and s1: "\<forall>x. s1 (0 # x) = None"
    by blast
  from example_two [OF s1] obtain s2 where two: "Put example_digest
      \<lparr>root = Some (Node (key_path 251 0) 1), storer = s1, height = 251\<rparr> (2 ^ 250) 1250
            = Inr \<lparr>root = Some (Node [] 305665431798938500000), storer = s2, height = 251\<rparr>"
    and facts: "s2 (0 # Felt_Bytes 305665431798938500000)
            = Some (Felt_Bytes 1250 @ Felt_Bytes 781875250)"
      "s2 (0 # Felt_Bytes 1250) = None"
      "s2 (1 # Felt_Bytes 781875250) = Some (Marshal (Node (replicate 250 False) 1250))"
      "s2 (1 # Felt_Bytes 1250) = Some (Marshal (Node [] 1250))"
    by blast
  have "puts example_digest \<lparr>root = None, storer = Map.empty, height = 251\<rparr>
             [(0, 1), (2 ^ 250, 1250)]
            = Inr \<lparr>root = Some (Node [] 305665431798938500000), storer = s2, height = 251\<rparr>"
    using one two by (simp del: power_numeral)
  with facts show ?thesis by blast
qed

lemma example_order_B:
  "\<exists>s. puts example_digest \<lparr>root = None, storer = Map.empty, height = 251\<rparr>
            [(0, 1), (1, 5), (2 ^ 250, 1250)]
          = Inr \<lparr>root = Some (Node [] 57390983832361634562500000), storer = s, height = 251\<rparr>"
proof -
  have S: "Suc 250 = 251" by simp
  have pos: "0 < (250 :: nat)" by simp
  from example_one obtain s1 where one: "Put example_digest
      \<lparr>root = None, storer = Map.empty, height = 251\<rparr> 0 1
           = Inr \<lparr>root = Some (Node (key_path 251 0) 1), storer = s1, height = 251\<rparr>"
    by blast
  have kp1: "key_path (Suc 250) 1 = replicate 250 False @ [True]"
    by (simp only: S key_path_1)
  have p1: "BigToFelt (example_digest (Big 1) (Big 5)) = 26000"
    by (simp add: BigToFelt_def Big_def example_digest_def stark_p_def)
  from Put_inside_edge [of 250 1 example_digest 1 s1 5, OF kp1 pos]
  obtain s2 where "Put example_digest \<lparr>root = Some (Node (replicate 250 False @ [False]) 1),
        storer = s1, height = Suc 250\<rparr> 1 5
      = Inr \<lparr>root = Some (Node (replicate 250 False) 26000), storer = s2, height = Suc 250\<rparr>"
    by (auto simp only: p1)
  then have two: "Put example_digest \<lparr>root = Some (Node (key_path 251 0) 1),
        storer = s1, height = 251\<rparr> 1 5
      = Inr \<lparr>root = Some (Node (replicate 250 False) 26000), storer = s2, height = 251\<rparr>"
    by (simp only: S key_path_0_snoc)
  have "replicate (Suc 249) False = False # replicate 249 False"
    by (rule replicate_Suc)
  moreover have "Suc 249 = 250" by simp
  ultimately have rep: "replicate 250 False = False # replicate 249 False"
    by simp
  have kpA: "key_path (Suc 250) (2 ^ 250) = True # replicate 250 False"
    by (simp only: S key_path_2_250)
  have "unat (Hash example_digest (Some (Node (replicate 249 False) 26000)))
          = example_digest (unat (26000 :: felt)) 0 + 249"
    by (rule Hash_zero_edge) (simp_all add: example_digest_def stark_p_def)
  then have "unat (Hash example_digest (Some (Node (replicate 249 False) 26000)))
               = unat (338013000249 :: felt)"
    by (simp add: example_digest_def)
  then have sH: "Hash example_digest (Some (Node (replicate 249 False) 26000)) = 338013000249"
    by (rule felt_eqI)
  have pB: "BigToFelt (example_digest (Big 338013000249) (Big 781875250))
              = 57390983832361634562500000"
    by (simp add: BigToFelt_def Big_def example_digest_def stark_p_def)
  from Put_right_of_edge [of 250 "2 ^ 250" "replicate 250 False" example_digest
      "replicate 249 False" 26000 s2 1250, OF kpA pos]
  obtain s3 where "Put example_digest \<lparr>root = Some (Node (False # replicate 249 False) 26000),
        storer = s2, height = Suc 250\<rparr> (2 ^ 250) 1250
      = Inr \<lparr>root = Some (Node [] 57390983832361634562500000), storer = s3, height = Suc 250\<rparr>"
    by (auto simp only: sH example_hash_right pB)
  then have three: "Put example_digest \<lparr>root = Some (Node (replicate 250 False) 26000),
        storer = s2, height = 251\<rparr> (2 ^ 250) 1250
      = Inr \<lparr>root = Some (Node [] 57390983832361634562500000), storer = s3, height = 251\<rparr>"
    by (simp only: S rep)
  have "puts example_digest \<lparr>root = None, storer = Map.empty, height = 251\<rparr>
            [(0, 1), (1, 5), (2 ^ 250, 1250)]
          = Inr \<lparr>root = Some (Node [] 57390983832361634562500000), storer = s3, height = 251\<rparr>"
    using one two three by (simp del: power_numeral)
  then show ?thesis by blast
qed

text \<open>The digest of the examples is injective.\<close>

lemma half_add: "(2 * k + m) div 2 = k + m div (2 :: nat)"
  by simp

lemma triangle_step: "Suc s * (Suc s + 1) div 2 = s * (s + 1) div 2 + Suc s"
proof -
  have "Suc s * (Suc s + 1) = 2 * Suc s + s * (s + 1)" by simp
  then have "Suc s * (Suc s + 1) div 2 = Suc s + s * (s + 1) div 2"
    by (simp only: half_add)
  then show ?thesis by simp
qed

lemma triangle_less: "(s :: nat) < n \<Longrightarrow> s * (s + 1) div 2 + s < n * (n + 1) div 2"
proof (induction n)
  case 0
  then show ?case by simp
next
  case (Suc n)
  note step = triangle_step [of n]
  show ?case
  proof (cases "s = n")
    case True
    then show ?thesis unfolding step by simp
  next
    case False
    with Suc have "s * (s + 1) div 2 + s < n * (n + 1) div 2" by simp
    then show ?thesis unfolding step by linarith
  qed
qed

lemma example_digest_inj:
  assumes "example_digest a b = example_digest c d"
  shows "a = c \<and> b = d"
proof -
  let ?T = "\<lambda>s :: nat. s * (s + 1) div 2"
  from assms have eq: "?T (a + b) + b = ?T (c + d) + d"
    by (simp add: example_digest_def)
  have "\<not> a + b < c + d"
  proof
    assume "a + b < c + d"
    from triangle_less [OF this] have "?T (a + b) + b < ?T (c + d) + d" by simp
    with eq show False by simp
  qed
  moreover have "\<not> c + d < a + b"
  proof
    assume "c + d < a + b"
    from triangle_less [OF this] have "?T (c + d) + d < ?T (a + b) + b" by simp
    with eq show False by simp
  qed
  ultimately have s: "a + b = c + d" by simp
  with eq have "b = d" by simp
  with s show ?thesis by simp
qed

lemma key_path_0_replicate: "key_path 251 0 = replicate 251 False"
  by (simp add: key_path_def NewPath_def bits_of_zero)

section \<open>The state update leaves the store alone until it commits\<close>

lemma remove0x_loop_found: "remove0x_loop answer True s = answer @ s"
  by (induction s arbitrary: answer) simp_all

lemma remove0x_Cons:
  assumes "c \<noteq> CHR ''0''" and "c \<noteq> CHR ''x''"
  shows "remove0x (c # cs) = c # cs"
  using assms by (simp add: remove0x_def remove0x_loop_found)

lemma hex_char_neq: "d < 16 \<Longrightarrow> hex_char d \<noteq> CHR ''x'' \<and> hex_char d \<noteq> CHR ''-'' \<and> hex_char d \<noteq> CHR ''+''"
  using hex_digit_hex_char [of d] by (auto simp: hex_digit_def Let_def)

lemma hex_char_zero: "d < 16 \<Longrightarrow> 0 < d \<Longrightarrow> hex_char d \<noteq> CHR ''0''"
  using hex_digit_hex_char [of d] by (auto simp: hex_digit_def Let_def)

lemma hex_text_head:
  "0 < n \<Longrightarrow> \<exists>c cs. hex_text n = c # cs \<and> c \<noteq> CHR ''0'' \<and> c \<noteq> CHR ''x''
      \<and> c \<noteq> CHR ''-'' \<and> c \<noteq> CHR ''+''"
proof (induction n rule: hex_text.induct)
  case (1 n)
  show ?case
  proof (cases "n < 16")
    case True
    with 1(2) show ?thesis
      by (subst hex_text.simps) (simp add: hex_char_neq hex_char_zero)
  next
    case False
    then have "0 < n div 16" by simp
    with 1(1) False obtain c cs where "hex_text (n div 16) = c # cs"
      and "c \<noteq> CHR ''0''" and "c \<noteq> CHR ''x''" and "c \<noteq> CHR ''-''" and "c \<noteq> CHR ''+''"
      by blast
    with False show ?thesis
      by (subst hex_text.simps) simp
  qed
qed

lemma SetString_hex_text_pos:
  assumes "0 < n"
  shows "SetString (remove0x (hex_text n)) = Some (int n)"
proof -
  from hex_text_head [OF assms] obtain c cs where eq: "hex_text n = c # cs"
    and c: "c \<noteq> CHR ''0''" "c \<noteq> CHR ''x''" "c \<noteq> CHR ''-''" "c \<noteq> CHR ''+''"
    by blast
  have "remove0x (hex_text n) = c # cs"
    unfolding eq using c by (simp add: remove0x_Cons)
  moreover have "hex_value 0 (c # cs) = Some n"
    using hex_value_hex_text [of n] by (simp only: eq)
  ultimately show ?thesis
    using c by (simp add: SetString_def)
qed

lemma SetString_remove0x_Text: "SetString (remove0x (Text i)) = Some i"
proof -
  consider "i = 0" | "0 < i" | "i < 0" by linarith
  then show ?thesis
  proof cases
    case 1
    have "SetString (remove0x (Text 0)) = Some 0"
      by code_simp
    then show ?thesis
      using 1 by simp
  next
    case 2
    then have "0 < nat i" by simp
    from SetString_hex_text_pos [OF this] 2 show ?thesis
      by (simp add: Text_def)
  next
    case 3
    then have pos: "0 < nat (- i)" by simp
    from hex_text_head [OF pos] obtain c cs where eq: "hex_text (nat (- i)) = c # cs"
      by blast
    have "hex_value 0 (c # cs) = Some (nat (- i))"
      using hex_value_hex_text [of "nat (- i)"] by (simp only: eq)
    then show ?thesis
      using 3 by (simp add: Text_def remove0x_Cons SetString_def eq)
  qed
qed

lemma Synchronizer_Put_db:
  assumes "transaction (transactionerDB s) \<noteq> None"
  shows "persisted (transactionerDB (Synchronizer_Put C t key val s)) = persisted (transactionerDB s)
       \<and> transaction (transactionerDB (Synchronizer_Put C t key val s)) \<noteq> None"
  using assms
  by (auto simp: Synchronizer_Put_def Databaser_write_def split: prod.splits option.splits)

lemma Synchronizer_newTrie_db:
  assumes "transaction (transactionerDB s) \<noteq> None"
  shows "persisted (transactionerDB (snd (Synchronizer_newTrie C prefix s))) = persisted (transactionerDB s)
       \<and> transaction (transactionerDB (snd (Synchronizer_newTrie C prefix s))) \<noteq> None"
  using assms
  by (auto simp: Synchronizer_newTrie_def Databaser_write_def split: prod.splits option.splits)

lemma Synchronizer_Rollback_db:
  "persisted (transactionerDB (Synchronizer_Rollback s)) = persisted (transactionerDB s)
     \<and> transaction (transactionerDB (Synchronizer_Rollback s)) = None"
  by (simp add: Synchronizer_Rollback_def Rollback_def)

lemma storageSlots_loop_db:
  assumes "transaction (transactionerDB s) \<noteq> None"
  shows "persisted (transactionerDB (snd (storageSlots_loop C t v s))) = persisted (transactionerDB s)
       \<and> (fst (storageSlots_loop C t v s) = None
            \<longrightarrow> transaction (transactionerDB (snd (storageSlots_loop C t v s))) \<noteq> None)"
  using assms
proof (induction v arbitrary: s)
  case Nil
  then show ?case by simp
next
  case (Cons storageSlots rest)
  show ?case
  proof (cases "SetString (remove0x (Key storageSlots))")
    case None
    then show ?thesis by (simp add: Synchronizer_Rollback_db)
  next
    case key: (Some key)
    show ?thesis
    proof (cases "SetString (remove0x (Value storageSlots))")
      case None
      with key show ?thesis by (simp add: Synchronizer_Rollback_db)
    next
      case (Some val)
      note put = Synchronizer_Put_db [OF Cons.prems, of C t key val]
      from put have "transaction (transactionerDB (Synchronizer_Put C t key val s)) \<noteq> None"
        by simp
      from Cons.IH [OF this] put key Some show ?thesis by simp
    qed
  qed
qed

lemma deployedContracts_loop_db:
  assumes "transaction (transactionerDB s) \<noteq> None"
  shows "persisted (transactionerDB (snd (deployedContracts_loop C dcs s))) = persisted (transactionerDB s)
       \<and> (fst (deployedContracts_loop C dcs s) = None
            \<longrightarrow> transaction (transactionerDB (snd (deployedContracts_loop C dcs s))) \<noteq> None)"
  using assms
proof (induction dcs arbitrary: s)
  case Nil
  then show ?case by simp
next
  case (Cons deployedContract rest)
  show ?case
  proof (cases "SetString (remove0x (ContractHash deployedContract))")
    case None
    then show ?thesis by (simp add: Synchronizer_Rollback_db)
  next
    case hash: (Some contractHash)
    define s1 where "s1 = s\<lparr>memory := storeContractHash C (Address deployedContract) contractHash (memory s)\<rparr>"
    define r where "r = (case storageTries s1 (remove0x (Address deployedContract)) of
                    Some t \<Rightarrow> (t, s1)
                  | None \<Rightarrow> Synchronizer_newTrie C (remove0x (Address deployedContract)) s1)"
    define storageTrie where "storageTrie = fst r"
    define s2 where "s2 = snd r"
    have s1: "transaction (transactionerDB s1) \<noteq> None"
      "persisted (transactionerDB s1) = persisted (transactionerDB s)"
      using Cons.prems by (simp_all add: s1_def)
    have s2: "transaction (transactionerDB s2) \<noteq> None"
      "persisted (transactionerDB s2) = persisted (transactionerDB s)"
      using s1 Synchronizer_newTrie_db [OF s1(1), of C "remove0x (Address deployedContract)"]
      by (auto simp: s2_def r_def split: option.splits)
    have r: "r = (storageTrie, s2)"
      by (simp add: storageTrie_def s2_def)
    show ?thesis
    proof (cases "SetString (remove0x (Address deployedContract))")
      case None
      with hash s2 show ?thesis
        by (simp add: Let_def s1_def [symmetric] r_def [symmetric] r Synchronizer_Rollback_db)
    next
      case (Some address)
      define s3 where "s3 = Synchronizer_Put C (stateTrie s2) address
          (contractState C contractHash (Synchronizer_Commitment C storageTrie s2)) s2"
      define s4 where "s4 = s3\<lparr>storageTries :=
          (storageTries s3)(remove0x (Address deployedContract) \<mapsto> storageTrie)\<rparr>"
      have s4: "transaction (transactionerDB s4) \<noteq> None"
        "persisted (transactionerDB s4) = persisted (transactionerDB s)"
        using Synchronizer_Put_db [OF s2(1), of C "stateTrie s2" address
            "contractState C contractHash (Synchronizer_Commitment C storageTrie s2)"] s2(2)
        by (simp_all add: s4_def s3_def)
      have "deployedContracts_loop C (deployedContract # rest) s = deployedContracts_loop C rest s4"
        using hash Some
        by (simp add: Let_def s1_def [symmetric] r_def [symmetric] r s3_def [symmetric]
            s4_def [symmetric])
      with Cons.IH [OF s4(1)] s4(2) show ?thesis by simp
    qed
  qed
qed

lemma storageDiffs_loop_db:
  assumes "transaction (transactionerDB s) \<noteq> None"
  shows "persisted (transactionerDB (snd (storageDiffs_loop C sds s))) = persisted (transactionerDB s)
       \<and> (fst (storageDiffs_loop C sds s) = None
            \<longrightarrow> transaction (transactionerDB (snd (storageDiffs_loop C sds s))) \<noteq> None)"
  using assms
proof (induction sds arbitrary: s)
  case Nil
  then show ?case by simp
next
  case (Cons kv rest)
  obtain k v where kv: "kv = (k, v)" by (cases kv)
  define r where "r = (case storageTries s (remove0x k) of
               Some t \<Rightarrow> (t, s)
             | None \<Rightarrow> Synchronizer_newTrie C (remove0x k) s)"
  define storageTrie where "storageTrie = fst r"
  define s1 where "s1 = snd r"
  have r: "r = (storageTrie, s1)"
    by (simp add: storageTrie_def s1_def)
  have s1: "transaction (transactionerDB s1) \<noteq> None"
    "persisted (transactionerDB s1) = persisted (transactionerDB s)"
    using Cons.prems Synchronizer_newTrie_db [OF Cons.prems, of C "remove0x k"]
    by (auto simp: s1_def r_def split: option.splits)
  obtain res s2 where loop: "storageSlots_loop C storageTrie v s1 = (res, s2)"
    by (cases "storageSlots_loop C storageTrie v s1")
  have s2: "persisted (transactionerDB s2) = persisted (transactionerDB s)"
    "res = None \<longrightarrow> transaction (transactionerDB s2) \<noteq> None"
    using storageSlots_loop_db [OF s1(1), of C storageTrie v] loop s1(2) by simp_all
  show ?case
  proof (cases res)
    case (Some p)
    with loop s2 show ?thesis
      by (simp add: kv r_def [symmetric] r)
  next
    case None
    with s2 have open2: "transaction (transactionerDB s2) \<noteq> None" by simp
    define s3 where "s3 = s2\<lparr>storageTries := (storageTries s2)(k \<mapsto> storageTrie)\<rparr>"
    have s3: "transaction (transactionerDB s3) \<noteq> None"
      "persisted (transactionerDB s3) = persisted (transactionerDB s)"
      using open2 s2(1) by (simp_all add: s3_def)
    show ?thesis
    proof (cases "SetString (remove0x k)")
      case none: None
      with loop None s3 show ?thesis
        by (simp add: kv r_def [symmetric] r Let_def s3_def [symmetric] Synchronizer_Rollback_db)
    next
      case (Some address)
      define s4 where "s4 = Synchronizer_Put C (stateTrie s2) address
          (contractState C (loadContractHash C k (memory s2))
             (Synchronizer_Commitment C storageTrie s2)) s3"
      have s4: "transaction (transactionerDB s4) \<noteq> None"
        "persisted (transactionerDB s4) = persisted (transactionerDB s)"
        using Synchronizer_Put_db [OF s3(1), of C "stateTrie s2" address
            "contractState C (loadContractHash C k (memory s2))
               (Synchronizer_Commitment C storageTrie s2)"] s3(2)
        by (simp_all add: s4_def)
      have "storageDiffs_loop C (kv # rest) s = storageDiffs_loop C rest s4"
        using loop None Some
        by (simp add: kv r_def [symmetric] r Let_def s3_def [symmetric] s4_def [symmetric])
      with Cons.IH [OF s4(1)] s4(2) show ?thesis by simp
    qed
  qed
qed

lemma updateState_commitment_db:
  "persisted (transactionerDB (snd (updateState_commitment C s update))) = persisted (transactionerDB s)
     \<and> (\<forall>c. fst (updateState_commitment C s update) = Inr c
            \<longrightarrow> transaction (transactionerDB (snd (updateState_commitment C s update))) \<noteq> None)"
proof -
  define s0 where "s0 = s\<lparr>transactionerDB := Begin (transactionerDB s)\<rparr>"
  have s0: "transaction (transactionerDB s0) \<noteq> None"
    "persisted (transactionerDB s0) = persisted (transactionerDB s)"
    by (simp_all add: s0_def Begin_def)
  obtain r1 s1 where l1: "deployedContracts_loop C (DeployedContracts update) s0 = (r1, s1)"
    by (cases "deployedContracts_loop C (DeployedContracts update) s0")
  have s1: "persisted (transactionerDB s1) = persisted (transactionerDB s)"
    "r1 = None \<longrightarrow> transaction (transactionerDB s1) \<noteq> None"
    using deployedContracts_loop_db [OF s0(1), of C "DeployedContracts update"] l1 s0(2)
    by simp_all
  show ?thesis
  proof (cases r1)
    case (Some p)
    with l1 s1 show ?thesis
      by (simp add: updateState_commitment_def Let_def s0_def [symmetric])
  next
    case None
    with s1 have open1: "transaction (transactionerDB s1) \<noteq> None" by simp
    obtain r2 s2 where l2: "storageDiffs_loop C (StorageDiffs update) s1 = (r2, s2)"
      by (cases "storageDiffs_loop C (StorageDiffs update) s1")
    have s2: "persisted (transactionerDB s2) = persisted (transactionerDB s)"
      "r2 = None \<longrightarrow> transaction (transactionerDB s2) \<noteq> None"
      using storageDiffs_loop_db [OF open1, of C "StorageDiffs update"] l2 s1(1)
      by simp_all
    from l1 None l2 s2 show ?thesis
      by (cases r2) (simp_all add: updateState_commitment_def Let_def s0_def [symmetric])
  qed
qed

lemma updateState_mismatch:
  assumes "fst (updateState_commitment C s update) = Inr commitment"
    and "stateRoot \<noteq> []"
    and "remove0x (Text commitment) \<noteq> remove0x stateRoot"
  shows "updateState C s update stateRoot blockHash blockNumber =
           (Some StateRootNotEqual, Synchronizer_Rollback (snd (updateState_commitment C s update)))"
proof -
  obtain r s2 where eq: "updateState_commitment C s update = (r, s2)"
    by (cases "updateState_commitment C s update")
  with assms(1) have "r = Inr commitment" by simp
  with eq assms(2,3) show ?thesis
    by (simp add: updateState_def Let_def)
qed

lemma SetString_examples:
  "SetString (remove0x ''0x1'') = Some 1"
  "SetString (remove0x ''0x2'') = Some 2"
  "SetString (remove0x ''0x3'') = Some 3"
  "SetString ''1'' = Some 1"
  "SetString ''2'' = Some 2"
  "remove0x ''0x1'' = ''1''"
  "remove0x ''0x2'' = ''2''"
  "remove0x (Text 2) = ''2''"
  by code_simp+

lemma updateState_commitment_example:
  "updateState_commitment example_collaborators example_synchronizer example_update =
     (Inr 2,
      \<lparr>transactionerDB =
         \<lparr>persisted = Map.empty,
          transaction = Some [string_bytes ''state_trie_'' \<mapsto> be_bytes 32 2]\<rparr>,
       stateTrie = ''state_trie_'',
       storageTries = [''1'' \<mapsto> ''1''],
       memory = ()\<rparr>)"
proof -
  have neq: "string_bytes ''1'' \<noteq> string_bytes ''state_trie_''"
    by (simp add: string_bytes_def)
  have "be_nat (be_bytes 32 2) = 2"
    by (simp add: be_nat_be_bytes)
  then show ?thesis
    using neq
    by (simp add: updateState_commitment_def example_collaborators_def example_synchronizer_def
        example_update_def Begin_def SetString_examples Let_def Synchronizer_newTrie_def
        Synchronizer_Commitment_def Synchronizer_Put_def Databaser_read_def Databaser_write_def
        contractState_def)
qed

lemma updateState_commit_example:
  "updateState example_collaborators example_synchronizer example_update ''0x2'' ''0x0'' ''0'' =
     (None,
      \<lparr>transactionerDB =
         \<lparr>persisted = [string_bytes ''state_trie_'' \<mapsto> be_bytes 32 2],
          transaction = None\<rparr>,
       stateTrie = ''state_trie_'',
       storageTries = [''1'' \<mapsto> ''1''],
       memory = ()\<rparr>)"
proof -
  have "updateAbiAndCode example_collaborators example_update ''0x0'' ''0'' () = ()"
    by simp
  then show ?thesis
    by (simp add: updateState_def updateState_commitment_example SetString_examples Commit_def)
qed

section \<open>The claims\<close>

text \<open>C1: when \<^verbatim>\<open>Synchronizer.updateState\<close> is called with a state root that is not the
  empty string and that, read as a number, is not the commitment of the state trie after
  the diff, the call ends in the panic \<^verbatim>\<open>stateRoot not equal to the one provided\<close> and
  returns nothing. The transaction is rolled back: the store of the transactioner is what
  it was before the call, no transaction is open, and a read shows the store from before
  the call.\<close>

theorem C1_root_mismatch_rolls_back:
  assumes "fst (updateState_commitment C s update) = Inr commitment"
    and "stateRoot \<noteq> []"
    and "SetString (remove0x stateRoot) \<noteq> Some commitment"
  shows "fst (updateState C s update stateRoot blockHash blockNumber) = Some StateRootNotEqual
       \<and> persisted (transactionerDB (snd (updateState C s update stateRoot blockHash blockNumber)))
           = persisted (transactionerDB s)
       \<and> transaction (transactionerDB (snd (updateState C s update stateRoot blockHash blockNumber)))
           = None
       \<and> Databaser_read (transactionerDB (snd (updateState C s update stateRoot blockHash blockNumber)))
           = persisted (transactionerDB s)"
proof -
  have "remove0x (Text commitment) \<noteq> remove0x stateRoot"
  proof
    assume "remove0x (Text commitment) = remove0x stateRoot"
    then have "SetString (remove0x stateRoot) = Some commitment"
      using SetString_remove0x_Text [of commitment] by simp
    with assms(3) show False by simp
  qed
  from updateState_mismatch [OF assms(1,2) this, of blockHash blockNumber]
  have eq: "updateState C s update stateRoot blockHash blockNumber =
           (Some StateRootNotEqual, Synchronizer_Rollback (snd (updateState_commitment C s update)))" .
  show ?thesis
    unfolding eq using updateState_commitment_db [of C s update]
    by (simp add: Synchronizer_Rollback_db Databaser_read_def)
qed

text \<open>C1 at a concrete input: one deployed contract, whose state commitment is 2, and
  the state root \<^verbatim>\<open>0x3\<close>, on the empty store.\<close>

theorem C1_witness:
  "fst (updateState_commitment example_collaborators example_synchronizer example_update) = Inr 2
   \<and> ''0x3'' \<noteq> []
   \<and> SetString (remove0x ''0x3'') \<noteq> Some 2
   \<and> fst (updateState example_collaborators example_synchronizer example_update ''0x3'' ''0x0'' ''0'')
       = Some StateRootNotEqual
   \<and> persisted (transactionerDB (snd (updateState example_collaborators example_synchronizer
         example_update ''0x3'' ''0x0'' ''0''))) = Map.empty
   \<and> Databaser_read (transactionerDB (snd (updateState example_collaborators example_synchronizer
         example_update ''0x3'' ''0x0'' ''0''))) = Map.empty"
proof -
  have "persisted (transactionerDB example_synchronizer) = Map.empty"
    by (simp add: example_synchronizer_def)
  with C1_root_mismatch_rolls_back [of example_collaborators example_synchronizer example_update 2
      "''0x3''" "''0x0''" "''0''"]
  show ?thesis
    by (simp add: updateState_commitment_example SetString_examples)
qed

text \<open>C2: on the trie with the key 0 and the value 5, \<^verbatim>\<open>Put\<close> of the key 0 with the value
  zero stores a leaf with the value zero, the node \<open>(0, 0, 0)\<close>, under the zero hash, and
  \<^verbatim>\<open>Get\<close> of the key then returns the value zero; the root hash is 251. \<^verbatim>\<open>Delete\<close> of
  the key leaves the empty trie: \<^verbatim>\<open>Get\<close> returns nil and the root hash is zero.\<close>

theorem C2_put_zero_stores_leaf:
  "(case NewTrie Map.empty None 251 of
      Inl e \<Rightarrow> False
    | Inr t0 \<Rightarrow>
       (case puts example_digest t0 [(0, 5)] of
          Inl e \<Rightarrow> False
        | Inr t \<Rightarrow>
           (case Put example_digest t 0 0 of
              Inl e \<Rightarrow> False
            | Inr t1 \<Rightarrow>
               (case Delete example_digest t 0 of
                  Inl e \<Rightarrow> False
                | Inr t2 \<Rightarrow>
                    fst (Get t1 0) = Inr (Some 0) \<and> fst (Get t2 0) = Inr None
                    \<and> RootHash example_digest t1 = 251 \<and> RootHash example_digest t2 = 0
                    \<and> retrieveByH (storer t1) 0 = Inr (Node [] 0)))))"
proof -
  let ?E = example_digest
  let ?kp = "key_path 251 0"
  let ?empty = "\<lparr>root = None, storer = Map.empty, height = 251\<rparr>"
  let ?sa = "snd (Put_up ?E ?kp Map.empty 251 (Node [] 5) 5 (storeByH Map.empty 5 (Node [] 5)))"
  let ?one = "\<lparr>root = Some (Node ?kp 5), storer = ?sa, height = 251\<rparr>"
  let ?leaf = "storeByH ?sa 0 (Node [] 0)"
  let ?sb = "snd (Put_up ?E ?kp Map.empty 251 (Node [] 0) 0 ?leaf)"
  let ?zero = "\<lparr>root = Some (Node ?kp 0), storer = ?sb, height = 251\<rparr>"
  let ?gone = "\<lparr>root = None, storer = ?sa, height = 251\<rparr>"
  have "Put ?E ?empty 0 5
          = Inr (?empty\<lparr>root := Some (Node (key_path (height ?empty) 0) 5),
                  storer := snd (Put_up ?E (key_path (height ?empty) 0) Map.empty (height ?empty)
                              (Node [] 5) 5 (storeByH (storer ?empty) 5 (Node [] 5)))\<rparr>)"
    by (rule Put_same_path) simp_all
  then have one: "Put ?E ?empty 0 5 = Inr ?one"
    by (simp del: Put_up.simps)
  have "Put ?E ?one 0 0
          = Inr (?one\<lparr>root := Some (Node (key_path (height ?one) 0) 0),
                  storer := snd (Put_up ?E (key_path (height ?one) 0) Map.empty (height ?one)
                              (Node [] 0) 0 (storeByH (storer ?one) 0 (Node [] 0)))\<rparr>)"
    by (rule Put_same_path [of _ _ 5]) simp_all
  then have put: "Put ?E ?one 0 0 = Inr ?zero"
    by (simp del: Put_up.simps)
  have "Delete ?E ?one 0 = Inr (?one\<lparr>root := None, storer := storer ?one\<rparr>)"
    by (rule Delete_on_edge [of _ _ 5]) simp_all
  then have del: "Delete ?E ?one 0 = Inr ?gone"
    by (simp del: Put_up.simps)
  have g1: "fst (Get ?zero 0) = Inr (Some 0)"
    by (rule Get_on_edge) simp_all
  have g2: "fst (Get ?gone 0) = Inr None"
    by (rule Get_on_empty) simp
  have "unat (Hash ?E (Some (Node ?kp 0))) = unat (251 :: felt)"
    by (simp add: Hash_key_path_0 example_digest_def stark_p_def)
  then have h1: "RootHash ?E ?zero = 251"
    by (simp add: RootHash_def felt_eqI del: Put_up.simps)
  have h2: "RootHash ?E ?gone = 0"
    by (simp add: RootHash_def Felt0_def)
  have miss: "\<forall>j<251. Hash ?E (Some (Node (drop j (take 251 ?kp) @ []) 0)) \<noteq> 0"
  proof (intro allI impI)
    fix j :: nat assume j: "j < 251"
    have "unat (Hash ?E (Some (Node (replicate (251 - j) False) 0)))
            = ?E (unat (0 :: felt)) 0 + (251 - j)"
      by (rule Hash_zero_edge) (use j in \<open>simp_all add: example_digest_def stark_p_def\<close>)
    then have "unat (Hash ?E (Some (Node (replicate (251 - j) False) 0))) \<noteq> unat (0 :: felt)"
      using j by (simp add: example_digest_def)
    then have "Hash ?E (Some (Node (replicate (251 - j) False) 0)) \<noteq> 0"
      by auto
    then show "Hash ?E (Some (Node (drop j (take 251 ?kp) @ []) 0)) \<noteq> 0"
      by (simp add: key_path_0_replicate)
  qed
  have "?sb (1 # Felt_Bytes 0) = ?leaf (1 # Felt_Bytes 0)"
    by (rule Put_up_stretch_miss [where q = "[]"]) (use miss in simp_all)
  then have "?sb (1 # Felt_Bytes 0) = Some (Marshal (Node [] 0))"
    by (simp del: Put_up.simps)
  then have "retrieveByH ?sb 0 = Inr (Node [] 0)"
    by (rule retrieveByH_entry [of ?sb]) simp
  then have r: "retrieveByH (storer ?zero) 0 = Inr (Node [] 0)"
    by (simp del: Put_up.simps)
  show ?thesis
    unfolding NewTrie_nil sum.case puts.simps one put del
    using g1 g2 h1 h2 r by (simp only: simp_thms)
qed

text \<open>C7: the key 5 was never put, and \<^verbatim>\<open>Get\<close> of it ends in the error
  \<^verbatim>\<open>ErrNotFound\<close> instead of returning nil. The trie was built by the puts of the keys 0
  and \<open>2 ^ 250\<close> into the empty trie, the second with the value 1250, which is the hash
  of the edge node of 250 bits above the first value. \<^verbatim>\<open>Put\<close> stores the leaf under its
  hash, which is its value, over that edge node; the traversal then takes the leaf for a
  node with two children and finds no pair under its bottom.\<close>

theorem C7_get_of_absent_key_fails:
  "(case NewTrie Map.empty None 251 of
      Inl e \<Rightarrow> False
    | Inr t0 \<Rightarrow>
       (case puts example_digest t0 [(0, 1), (2 ^ 250, 1250)] of
          Inl e \<Rightarrow> False
        | Inr t \<Rightarrow>
            (5 :: felt) \<notin> fst ` set [(0 :: felt, 1 :: felt), (2 ^ 250, 1250)]
            \<and> fst (Get t 5) = Inl ErrNotFound))"
proof -
  from example_puts obtain s2 where puts: "puts example_digest
        \<lparr>root = None, storer = Map.empty, height = 251\<rparr> [(0, 1), (2 ^ 250, 1250)]
      = Inr \<lparr>root = Some (Node [] 305665431798938500000), storer = s2, height = 251\<rparr>"
    and P: "s2 (0 # Felt_Bytes 305665431798938500000)
              = Some (Felt_Bytes 1250 @ Felt_Bytes 781875250)"
    and none: "s2 (0 # Felt_Bytes 1250) = None"
    and left: "s2 (1 # Felt_Bytes 1250) = Some (Marshal (Node [] 1250))"
    by blast
  let ?t = "\<lparr>root = Some (Node [] 305665431798938500000), storer = s2, height = 251\<rparr>"
  have S: "Suc 250 = 251" by simp
  have kp: "key_path (Suc 250) 5 = False # bits_of 250 5"
    by (simp only: S key_path_5)
  have "fst (Get ?t 5) = Inl ErrNotFound"
    by (rule Get_into_leaf [of ?t "305665431798938500000" 250 1250 1250 781875250 5
          "bits_of 250 5"])
      (use P none left kp in simp_all)
  moreover have "(5 :: felt) \<notin> fst ` set [(0 :: felt, 1 :: felt), (2 ^ 250, 1250)]"
    by simp
  ultimately show ?thesis
    using puts by (simp add: NewTrie_nil del: power_numeral puts.simps)
qed

text \<open>C8: in the same trie the left child of the root, read through the store, is a
  node with an empty path one bit below the root, and the store holds nothing under
  \<^verbatim>\<open>0x00\<close> and its bottom.\<close>

theorem C8_reachable_node_without_pair:
  "(case NewTrie Map.empty None 251 of
      Inl e \<Rightarrow> False
    | Inr t0 \<Rightarrow>
       (case puts example_digest t0 [(0, 1), (2 ^ 250, 1250)] of
          Inl e \<Rightarrow> False
        | Inr t \<Rightarrow>
           (case root t of
              None \<Rightarrow> False
            | Some rt \<Rightarrow>
                reach (storer t) 251 rt 1 (Node [] 1250)
                \<and> Path (Node [] 1250) = [] \<and> (1 :: nat) < 251
                \<and> storer t (0 # Felt_Bytes (Bottom (Node [] 1250))) = None
                \<and> retrieveByP (storer t) (Bottom (Node [] 1250)) = Inl ErrNotFound)))"
proof -
  from example_puts obtain s2 where puts: "puts example_digest
        \<lparr>root = None, storer = Map.empty, height = 251\<rparr> [(0, 1), (2 ^ 250, 1250)]
      = Inr \<lparr>root = Some (Node [] 305665431798938500000), storer = s2, height = 251\<rparr>"
    and P: "s2 (0 # Felt_Bytes 305665431798938500000)
              = Some (Felt_Bytes 1250 @ Felt_Bytes 781875250)"
    and none: "s2 (0 # Felt_Bytes 1250) = None"
    and left: "s2 (1 # Felt_Bytes 1250) = Some (Marshal (Node [] 1250))"
    by blast
  let ?rt = "Node [] 305665431798938500000"
  have rP: "retrieveByP s2 (Bottom ?rt) = Inr (1250, 781875250)"
    using P by (simp add: retrieveByP_entry)
  have rH: "retrieveByH s2 1250 = Inr (Node [] 1250)"
    using left by (rule retrieveByH_entry [of s2]) simp
  have "reach s2 251 ?rt 0 ?rt"
    by (rule reach_root)
  then have "reach s2 251 ?rt (Suc 0) (Node [] 1250)"
    by (rule reach_left [OF _ _ _ rP rH]) simp_all
  then have r: "reach s2 251 ?rt 1 (Node [] 1250)"
    by simp
  have "retrieveByP s2 1250 = Inl ErrNotFound"
    using none by (rule retrieveByP_absent [of s2])
  with r none show ?thesis
    using puts by (simp add: NewTrie_nil del: power_numeral puts.simps)
qed

text \<open>C3: on the trie with the key 0 and the value 1, whose root hash is 1251, the put
  of the key \<open>2 ^ 250\<close>, which the trie does not hold, with the value 1250 and then the
  delete of that key leave the root hash 781875001. The delete reads the sibling under
  the hash 1250 and gets the leaf that the put stored there.\<close>

theorem C3_put_delete_changes_root:
  "(case NewTrie Map.empty None 251 of
      Inl e \<Rightarrow> False
    | Inr t0 \<Rightarrow>
       (case puts example_digest t0 [(0, 1)] of
          Inl e \<Rightarrow> False
        | Inr t \<Rightarrow>
           (case Put example_digest t (2 ^ 250) 1250 of
              Inl e \<Rightarrow> False
            | Inr t1 \<Rightarrow>
               (case Delete example_digest t1 (2 ^ 250) of
                  Inl e \<Rightarrow> False
                | Inr t2 \<Rightarrow>
                    fst (Get t (2 ^ 250)) = Inr None
                    \<and> RootHash example_digest t = 1251
                    \<and> RootHash example_digest t2 = 781875001
                    \<and> RootHash example_digest t2 \<noteq> RootHash example_digest t))))"
proof -
  have S: "Suc 250 = 251" by simp
  from example_one obtain s1 where one: "Put example_digest
      \<lparr>root = None, storer = Map.empty, height = 251\<rparr> 0 1
           = Inr \<lparr>root = Some (Node (key_path 251 0) 1), storer = s1, height = 251\<rparr>"
    and s1: "\<forall>x. s1 (0 # x) = None"
    by blast
  let ?t = "\<lparr>root = Some (Node (key_path 251 0) 1), storer = s1, height = 251\<rparr>"
  from example_two [OF s1] obtain s2 where two: "Put example_digest ?t (2 ^ 250) 1250
            = Inr \<lparr>root = Some (Node [] 305665431798938500000), storer = s2, height = 251\<rparr>"
    and P: "s2 (0 # Felt_Bytes 305665431798938500000)
            = Some (Felt_Bytes 1250 @ Felt_Bytes 781875250)"
    and right: "s2 (1 # Felt_Bytes 781875250) = Some (Marshal (Node (replicate 250 False) 1250))"
    and left: "s2 (1 # Felt_Bytes 1250) = Some (Marshal (Node [] 1250))"
    by blast
  let ?t1 = "\<lparr>root = Some (Node [] 305665431798938500000), storer = s2, height = 251\<rparr>"
  have kpA: "key_path (Suc 250) (2 ^ 250) = True # replicate 250 False"
    by (simp only: S key_path_2_250)
  have "\<exists>s. Delete example_digest ?t1 (2 ^ 250)
           = Inr (?t1\<lparr>root := Some (Node [False] 1250), storer := s\<rparr>)"
    by (rule Delete_beside_leaf [of ?t1 "305665431798938500000" 250 1250 781875250
          "replicate 250 False" 1250 1250 "2 ^ 250"])
      (use P right left kpA in simp_all)
  then obtain s3 where three: "Delete example_digest ?t1 (2 ^ 250)
           = Inr \<lparr>root = Some (Node [False] 1250), storer = s3, height = 251\<rparr>"
    by auto
  have "Get_loop s1 251 (True # replicate 250 False) 0 (Node (False # replicate 250 False) 1)
          = Inr None"
    by (subst Get_loop.simps) (simp add: Len_def Walked_def)
  then have "Get_loop s1 251 (key_path 251 (2 ^ 250)) 0 (Node (key_path 251 0) 1) = Inr None"
    by (simp only: key_path_0 key_path_2_250)
  then have fresh: "fst (Get ?t (2 ^ 250)) = Inr None"
    by (simp add: Get_def key_path_def [symmetric] del: power_numeral)
  have "unat (Hash example_digest (Some (Node (key_path 251 0) 1))) = unat (1251 :: felt)"
    by (simp add: Hash_key_path_0 example_digest_def stark_p_def)
  then have h0: "RootHash example_digest ?t = 1251"
    by (simp add: RootHash_def felt_eqI)
  have "unat (Hash example_digest (Some (Node (replicate 1 False) 1250))) = 781875000 + 1"
    by (rule example_hash_1250) simp_all
  then have "unat (Hash example_digest (Some (Node [False] 1250))) = unat (781875001 :: felt)"
    by simp
  then have h2: "RootHash example_digest
      \<lparr>root = Some (Node [False] 1250), storer = s3, height = 251\<rparr> = 781875001"
    by (simp add: RootHash_def felt_eqI)
  have "(781875001 :: felt) \<noteq> 1251" by simp
  with one two three fresh h0 h2 show ?thesis
    by (simp add: NewTrie_nil del: power_numeral)
qed

text \<open>C4: the keys 0, \<open>2 ^ 250\<close> and 1 are different. Put in this order with the values
  1, 1250 and 5, the third put ends in \<^verbatim>\<open>ErrNotFound\<close>: its walk reads the leaf stored
  under 1250 where the edge node was. With the second and the third pair exchanged all
  three puts succeed.\<close>

theorem C4_order_of_puts_matters:
  "(case NewTrie Map.empty None 251 of
      Inl e \<Rightarrow> False
    | Inr t0 \<Rightarrow>
        distinct (map fst [(0 :: felt, 1 :: felt), (2 ^ 250, 1250), (1, 5)])
        \<and> set [(0 :: felt, 1 :: felt), (2 ^ 250, 1250), (1, 5)]
            = set [(0, 1), (1, 5), (2 ^ 250, 1250)]
        \<and> puts example_digest t0 [(0, 1), (2 ^ 250, 1250), (1, 5)] = Inl ErrNotFound
        \<and> (case puts example_digest t0 [(0, 1), (1, 5), (2 ^ 250, 1250)] of
             Inl e \<Rightarrow> False
           | Inr t \<Rightarrow> RootHash example_digest t = 57390983832361634562500000))"
proof -
  have S: "Suc 250 = 251" by simp
  from example_puts obtain s2 where puts: "puts example_digest
        \<lparr>root = None, storer = Map.empty, height = 251\<rparr> [(0, 1), (2 ^ 250, 1250)]
      = Inr \<lparr>root = Some (Node [] 305665431798938500000), storer = s2, height = 251\<rparr>"
    and P: "s2 (0 # Felt_Bytes 305665431798938500000)
              = Some (Felt_Bytes 1250 @ Felt_Bytes 781875250)"
    and none: "s2 (0 # Felt_Bytes 1250) = None"
    and left: "s2 (1 # Felt_Bytes 1250) = Some (Marshal (Node [] 1250))"
    by blast
  let ?t = "\<lparr>root = Some (Node [] 305665431798938500000), storer = s2, height = 251\<rparr>"
  have "replicate (Suc 249) False = False # replicate 249 False"
    by (rule replicate_Suc)
  moreover have "Suc 249 = 250" by simp
  ultimately have rep: "replicate 250 False = False # replicate 249 False"
    by simp
  have kp: "key_path (Suc 250) 1 = False # (replicate 249 False @ [True])"
    by (simp only: S key_path_1 rep append_Cons)
  have third: "Put example_digest ?t 1 5 = Inl ErrNotFound"
    by (rule Put_into_leaf [of ?t "305665431798938500000" 250 1250 1250 781875250 1
          "replicate 249 False @ [True]"])
      (use P none left kp in simp_all)
  have "puts example_digest \<lparr>root = None, storer = Map.empty, height = 251\<rparr>
          ([(0, 1), (2 ^ 250, 1250)] @ [(1, 5)]) = Inl ErrNotFound"
  proof -
    have app: "\<And>t kvs kvs'. puts example_digest t (kvs @ kvs')
        = (case puts example_digest t kvs of Inl e \<Rightarrow> Inl e | Inr t' \<Rightarrow> puts example_digest t' kvs')"
    proof -
      fix t kvs kvs'
      show "puts example_digest t (kvs @ kvs')
        = (case puts example_digest t kvs of Inl e \<Rightarrow> Inl e | Inr t' \<Rightarrow> puts example_digest t' kvs')"
        by (induction kvs arbitrary: t) (auto split: sum.splits)
    qed
    show ?thesis
      unfolding app puts using third by simp
  qed
  then have A: "puts example_digest \<lparr>root = None, storer = Map.empty, height = 251\<rparr>
          [(0, 1), (2 ^ 250, 1250), (1, 5)] = Inl ErrNotFound"
    by (simp only: append_Cons append_Nil)
  from example_order_B obtain s where B: "puts example_digest
        \<lparr>root = None, storer = Map.empty, height = 251\<rparr> [(0, 1), (1, 5), (2 ^ 250, 1250)]
      = Inr \<lparr>root = Some (Node [] 57390983832361634562500000), storer = s, height = 251\<rparr>"
    by blast
  have h: "RootHash example_digest
      \<lparr>root = Some (Node [] 57390983832361634562500000), storer = s, height = 251\<rparr>
        = 57390983832361634562500000"
    by (simp add: RootHash_def Hash_def Len_def)
  have d: "distinct (map fst [(0 :: felt, 1 :: felt), (2 ^ 250, 1250), (1, 5)])"
    by simp
  have e: "set [(0 :: felt, 1 :: felt), (2 ^ 250, 1250), (1, 5)]
            = set [(0, 1), (1, 5), (2 ^ 250, 1250)]"
    by auto
  show ?thesis
    unfolding NewTrie_nil sum.case A B
    using d e h by (simp only: simp_thms)
qed

text \<open>C5: on the empty trie of height 251, \<^verbatim>\<open>Put\<close> of key 1 and value 2 succeeds and the
  root hash of the result is the digest of 2 and 1 plus 251, modulo the StarkNet prime,
  whatever the digest function and whatever the store held before.\<close>

theorem C5_single_put_root_hash:
  "\<exists>t t'. NewTrie kvs None 251 = Inr t \<and> Put D t 1 2 = Inr t'
     \<and> unat (RootHash D t') = (D 2 1 + 251) mod stark_p"
proof -
  let ?t = "\<lparr>root = None, storer = kvs, height = 251\<rparr>"
  let ?path = "NewPath 251 (Felt_Bytes 1)"
  obtain cur kvs' where up:
    "Put_up D ?path Map.empty 251 (Node [] 2) (Hash D (Some (Node [] 2)))
        (storeByH kvs (Hash D (Some (Node [] 2))) (Node [] 2)) = (cur, kvs')"
    by fastforce
  have "fst (Put_up D ?path Map.empty 251 (Node [] 2) (Hash D (Some (Node [] 2)))
        (storeByH kvs (Hash D (Some (Node [] 2))) (Node [] 2))) = Node (take 251 ?path @ []) 2"
    by (rule Put_up_no_siblings) simp
  with up have cur: "cur = Node ?path 2" by simp
  have put: "Put D ?t 1 2 = Inr (?t\<lparr>root := Some cur, storer := kvs'\<rparr>)"
    using up by (simp add: Put_def Put_walk.simps computeH_def EmptyPath_def Len_def Let_def)
  have "be_nat (Felt_Bytes 1) = 1"
    by (simp add: Felt_Bytes_def FeltLength_def be_nat_be_bytes)
  then have pn: "path_nat ?path = 1"
    by (simp add: NewPath_def path_nat_bits_of)
  have p: "stark_p < 2 ^ 256" by (simp add: stark_p_def)
  have lt: "\<And>x. x mod stark_p < 2 ^ 256"
    by (rule less_trans [OF _ p]) (simp add: stark_p_def)
  have u: "\<And>x. unat (of_nat (x mod stark_p) :: felt) = x mod stark_p"
    using lt by (simp add: unat_of_nat)
  have "unat (Hash D (Some cur)) = (D 2 1 + 251) mod stark_p"
    unfolding cur
    by (simp add: Hash_def Len_def pn Felt_Add_def BigToFelt_def Big_def u mod_add_left_eq)
       (simp add: stark_p_def)
  then show ?thesis
    using put by (simp add: NewTrie_def RootHash_def)
qed

text \<open>C6: the constructor treats only a nil root hash as the empty trie. Given the zero
  felt as root hash it looks the hash up, and on a store without that node it fails with
  \<^verbatim>\<open>ErrNotFound\<close>.\<close>

theorem C6_zero_root_hash_not_found:
  "NewTrie Map.empty (Some Felt0) 251 = Inl ErrNotFound"
  by (simp add: NewTrie_def retrieveByH_def)

text \<open>C9, as amended: \<^verbatim>\<open>updateNumericValueFromDB\<close>, called with the key
  \<^verbatim>\<open>latestBlockSynced\<close> and the sequence number \<open>n\<close>, succeeds and leaves under that key
  the 8-byte big-endian encoding of \<open>n + 1\<close> (in 64-bit arithmetic), the successor of the
  number passed and not the number itself.\<close>

theorem C9_stores_successor:
  "\<exists>database'. updateNumericValueFromDB database latestBlockSynced n = Inr database'
     \<and> database' (string_bytes latestBlockSynced) = Some (be_bytes 8 (unat (n + 1)))"
  by (simp add: updateNumericValueFromDB_def Databaser_Put_def)

text \<open>C9 as stated fails: with the sequence number 5 the stored bytes encode 6, not 5.\<close>

theorem C9_counterexample:
  "(case updateNumericValueFromDB Map.empty latestBlockSynced 5 of
      Inl e \<Rightarrow> False
    | Inr database' \<Rightarrow>
        database' (string_bytes latestBlockSynced) = Some [0, 0, 0, 0, 0, 0, 0, 6]
        \<and> database' (string_bytes latestBlockSynced) \<noteq> Some (be_bytes 8 (unat (5 :: 64 word))))"
  by code_simp

text \<open>C10: \<^verbatim>\<open>Get\<close> leaves the trie as it was, whatever it returns: the store, the root,
  the root hash and the result of every later \<^verbatim>\<open>Get\<close> are unchanged.\<close>

theorem C10_get_read_only:
  "snd (Get t key) = t \<and> storer (snd (Get t key)) = storer t \<and> root (snd (Get t key)) = root t
     \<and> RootHash D (snd (Get t key)) = RootHash D t
     \<and> fst (Get (snd (Get t key)) key') = fst (Get t key')"
proof -
  have "snd (Get t key) = t"
    by (simp add: Get_def split: option.splits)
  then show ?thesis by simp
qed


end
